theory Spec2Isabelle
  imports Main "HOL-Library.Multiset"
begin

section \<open>The array list of \<^verbatim>\<open>Sources/List.hpp\<close>\<close>

text \<open>
  \<^verbatim>\<open>List<T>\<close> is an array list: an \<^verbatim>\<open>int size_\<close>, an \<^verbatim>\<open>int capacity_\<close> and a
  heap buffer \<^verbatim>\<open>T* data_\<close> of \<^verbatim>\<open>capacity_\<close> slots that the object owns alone.
  The embedding keeps the three fields, as \<open>size_m\<close>, \<open>capacity_m\<close> and \<open>data_m\<close>
  (a name of Isabelle cannot end in an underscore). The buffer is held by value as a
  list of slots; a slot is \<open>None\<close> while it has never been written (\<^verbatim>\<open>new T[n]\<close> gives \<open>n\<close> such
  slots) and \<open>Some v\<close> afterwards. The C++ \<^verbatim>\<open>int\<close> is modelled by \<open>int\<close>; the places
  where a 32-bit value could leave its range are written out (\<open>to_int32\<close>, the
  \<open>Overflow\<close> outcome of the slice loop). Allocation is assumed to succeed.

  Outcomes. A \<^verbatim>\<open>const\<close> member returns \<open>error + result\<close>. A mutating member returns
  a pair: the outcome \<open>error + result\<close> and the object as the call leaves it, so that
  an exception thrown by a check leaves a state behind that theorems can speak about.
  The first four errors are the exceptions of the source; the last four stand for
  undefined behaviour (an access outside the buffer, a read of a slot never written, a
  signed overflow, a read through a reference into a buffer that has been released).
  The model stops at such an access: the state returned with it holds the fields as
  they stood when the access was attempted, and what the program does afterwards is
  not defined by the language.

  References. \<^verbatim>\<open>insert\<close> and \<^verbatim>\<open>operator+=\<close> take their element as \<^verbatim>\<open>const T&\<close> and
  read it only after the buffer may have been replaced and shifted, so the model passes
  them a reference, not a value: a reference either to an object outside the buffer of
  the receiver, or to a slot of that buffer (what \<^verbatim>\<open>operator[]\<close> returns).
\<close>

datatype error =
    IndexOutOfRange | EmptyContainer | CapacityExceeded | InvalidArgument
  | OutOfBounds | Uninitialised | Overflow | Dangling

text \<open>A \<^verbatim>\<open>const T&\<close> argument of a member of the list \<open>l\<close>. \<open>Outside v\<close> refers to an object
  that is no slot of the buffer of \<open>l\<close> and holds \<open>v\<close>; the member cannot change it.
  \<open>Slot k\<close> refers to \<^verbatim>\<open>data_[k]\<close> of the buffer that \<open>l\<close> owns when the call is made.\<close>

datatype 'a elem_ref = Outside 'a | Slot int

record 'a List =
  size_m :: int
  capacity_m :: int
  data_m :: "'a option list"

definition INT_MAX :: int where
  "INT_MAX = 2147483647"

definition INT_MIN :: int where
  "INT_MIN = - INT_MAX - 1"

definition INIT_CAPACITY :: int where
  "INIT_CAPACITY = 4"

definition MAX_CAPACITY :: int where
  "MAX_CAPACITY = INT_MAX - 1"

text \<open>The conversion \<^verbatim>\<open>(int)il.size()\<close> of a \<^verbatim>\<open>size_t\<close>: reduction modulo \<open>2^32\<close>
  into the signed range.\<close>

definition to_int32 :: "int \<Rightarrow> int" where
  "to_int32 n = (n + 2147483648) mod 4294967296 - 2147483648"

subsection \<open>The validators of \<^verbatim>\<open>common/\<close>\<close>

text \<open>Modelled from the spec: \<^verbatim>\<open>common/check_bounds.hpp\<close> is not among the sources.
  "Given (index, lower_inclusive, upper_exclusive), fails with IndexOutOfRange if index
  is outside range; otherwise no-op."\<close>

definition check_bounds :: "int \<Rightarrow> int \<Rightarrow> int \<Rightarrow> error + unit" where
  "check_bounds pos lower upper =
     (if pos < lower \<or> upper \<le> pos then Inl IndexOutOfRange else Inr ())"

text \<open>Modelled from the spec: \<^verbatim>\<open>common/check_empty.hpp\<close> is not among the sources.
  "Fail with EmptyContainer given current size; otherwise no-op."\<close>

definition check_empty :: "int \<Rightarrow> error + unit" where
  "check_empty n = (if n = 0 then Inl EmptyContainer else Inr ())"

text \<open>Modelled from the spec: \<^verbatim>\<open>common/check_full.hpp\<close> is not among the sources.
  "CapacityExceeded fails if length == MAX_CAPACITY", given the current size and the
  maximum.\<close>

definition check_full :: "int \<Rightarrow> int \<Rightarrow> error + unit" where
  "check_full n mx = (if n = mx then Inl CapacityExceeded else Inr ())"

subsection \<open>Buffer accesses\<close>

text \<open>\<^verbatim>\<open>data_[i]\<close> as an rvalue and \<^verbatim>\<open>data_[i] = v\<close>. The buffer has exactly the slots
  \<open>0 ..< length d\<close>; anything else is undefined behaviour in C++ and an error here.\<close>

definition rd :: "'a option list \<Rightarrow> int \<Rightarrow> error + 'a" where
  "rd d i =
     (if i < 0 \<or> int (length d) \<le> i then Inl OutOfBounds
      else (case d ! nat i of None \<Rightarrow> Inl Uninitialised | Some v \<Rightarrow> Inr v))"

definition wr :: "'a option list \<Rightarrow> int \<Rightarrow> 'a \<Rightarrow> error + 'a option list" where
  "wr d i v =
     (if i < 0 \<or> int (length d) \<le> i then Inl OutOfBounds
      else Inr (d[nat i := Some v]))"

text \<open>\<^verbatim>\<open>new T[n]\<close>.\<close>

definition new_array :: "int \<Rightarrow> 'a option list" where
  "new_array n = replicate (nat n) None"

text \<open>Modelled from the spec: \<^verbatim>\<open>common/swap.hpp\<close> is not among the sources. The
  element swap \<^verbatim>\<open>common::swap(data_[i], data_[j])\<close> exchanges the two slots through a
  temporary.\<close>

definition swap_slots :: "'a option list \<Rightarrow> int \<Rightarrow> int \<Rightarrow> error + 'a option list" where
  "swap_slots d i j =
     (case rd d i of Inl e \<Rightarrow> Inl e | Inr tmp \<Rightarrow>
     (case rd d j of Inl e \<Rightarrow> Inl e | Inr b \<Rightarrow>
     (case wr d i b of Inl e \<Rightarrow> Inl e | Inr d1 \<Rightarrow>
      wr d1 j tmp)))"

text \<open>The loop \<^verbatim>\<open>for (int i = 0; i < size_; ++i) tmp[i] = data_[i];\<close> that
  \<^verbatim>\<open>expand_capacity\<close>, the copy constructor and the copy assignment each contain.\<close>

function copy_elems ::
  "int \<Rightarrow> int \<Rightarrow> 'a option list \<Rightarrow> 'a option list \<Rightarrow> error + 'a option list" where
  "copy_elems i n src dst =
     (if i < n then
        (case rd src i of Inl e \<Rightarrow> Inl e | Inr v \<Rightarrow>
        (case wr dst i v of Inl e \<Rightarrow> Inl e | Inr dst' \<Rightarrow>
         copy_elems (i + 1) n src dst'))
      else Inr dst)"
  by pat_completeness auto
termination
  by (relation "measure (\<lambda>(i, n, src, dst). nat (n - i))") auto

declare copy_elems.simps [simp del]

subsection \<open>Capacity\<close>

definition expand_capacity :: "'a List \<Rightarrow> (error + unit) \<times> 'a List" where
  "expand_capacity l =
     (let cap = (if capacity_m l < MAX_CAPACITY div 2 then capacity_m l * 2 else MAX_CAPACITY)
      in (case copy_elems 0 (size_m l) (data_m l) (new_array cap) of
            Inl e \<Rightarrow> (Inl e, l\<lparr>capacity_m := cap\<rparr>)
          | Inr tmp \<Rightarrow> (Inr (), l\<lparr>capacity_m := cap, data_m := tmp\<rparr>)))"

subsection \<open>Constructors\<close>

definition List_default :: "'a List" where
  "List_default =
     \<lparr>size_m = 0, capacity_m = INIT_CAPACITY, data_m = new_array INIT_CAPACITY\<rparr>"

text \<open>\<^verbatim>\<open>List(const std::initializer_list<T>& il)\<close>; \<^verbatim>\<open>*(il.begin() + i)\<close> outside the
  literal is undefined.\<close>

function il_elems :: "int \<Rightarrow> int \<Rightarrow> 'a list \<Rightarrow> 'a option list \<Rightarrow> error + 'a option list" where
  "il_elems i n il d =
     (if i < n then
        (if i < 0 \<or> int (length il) \<le> i then Inl OutOfBounds
         else (case wr d i (il ! nat i) of Inl e \<Rightarrow> Inl e | Inr d' \<Rightarrow>
               il_elems (i + 1) n il d'))
      else Inr d)"
  by pat_completeness auto
termination
  by (relation "measure (\<lambda>(i, n, il, d). nat (n - i))") auto

declare il_elems.simps [simp del]

definition List_il :: "'a list \<Rightarrow> error + 'a List" where
  "List_il il =
     (let sz = to_int32 (int (length il));
          cap = (if sz \<ge> INIT_CAPACITY then sz else INIT_CAPACITY)
      in (case il_elems 0 sz il (new_array cap) of
            Inl e \<Rightarrow> Inl e
          | Inr d \<Rightarrow> Inr \<lparr>size_m = sz, capacity_m = cap, data_m = d\<rparr>))"

definition List_copy :: "'a List \<Rightarrow> error + 'a List" where
  "List_copy that =
     (case copy_elems 0 (size_m that) (data_m that) (new_array (capacity_m that)) of
        Inl e \<Rightarrow> Inl e
      | Inr d \<Rightarrow> Inr \<lparr>size_m = size_m that, capacity_m = capacity_m that, data_m = d\<rparr>)"


subsection \<open>Access\<close>

text \<open>\<^verbatim>\<open>operator[](int index)\<close> returns a reference to the slot the index denotes:
  \<^verbatim>\<open>index >= 0 ? data_[index] : data_[size_ + index]\<close>.\<close>

definition op_index :: "'a List \<Rightarrow> int \<Rightarrow> error + 'a elem_ref" where
  "op_index l index =
     (case check_bounds index (- size_m l) (size_m l) of
        Inl e \<Rightarrow> Inl e
      | Inr _ \<Rightarrow> Inr (Slot (if index \<ge> 0 then index else size_m l + index)))"

subsection \<open>Examination\<close>

text \<open>\<^verbatim>\<open>operator==\<close>; the elements are compared with the equality of HOL.\<close>

function eq_loop :: "int \<Rightarrow> int \<Rightarrow> 'a option list \<Rightarrow> 'a option list \<Rightarrow> error + bool" where
  "eq_loop i n d1 d2 =
     (if i < n then
        (case rd d1 i of Inl e \<Rightarrow> Inl e | Inr a \<Rightarrow>
        (case rd d2 i of Inl e \<Rightarrow> Inl e | Inr b \<Rightarrow>
         if a \<noteq> b then Inr False else eq_loop (i + 1) n d1 d2))
      else Inr True)"
  by pat_completeness auto
termination
  by (relation "measure (\<lambda>(i, n, d1, d2). nat (n - i))") auto

declare eq_loop.simps [simp del]

definition op_eq :: "'a List \<Rightarrow> 'a List \<Rightarrow> error + bool" where
  "op_eq l that =
     (if size_m l \<noteq> size_m that then Inr False
      else eq_loop 0 (size_m l) (data_m l) (data_m that))"

function find_loop :: "int \<Rightarrow> int \<Rightarrow> 'a option list \<Rightarrow> 'a \<Rightarrow> error + int" where
  "find_loop i stop d element =
     (if i < stop then
        (case rd d i of Inl e \<Rightarrow> Inl e | Inr v \<Rightarrow>
         if v = element then Inr i else find_loop (i + 1) stop d element)
      else Inr (- 1))"
  by pat_completeness auto
termination
  by (relation "measure (\<lambda>(i, stop, d, element). nat (stop - i))") auto

declare find_loop.simps [simp del]

text \<open>\<^verbatim>\<open>find(element, start, stop)\<close>; the defaults are \<open>start = 0\<close> and
  \<open>stop = MAX_CAPACITY + 1\<close>.\<close>

definition find_L :: "'a List \<Rightarrow> 'a \<Rightarrow> int \<Rightarrow> int \<Rightarrow> error + int" where
  "find_L l element start stop =
     (let stop' = (if stop > size_m l then size_m l else stop)
      in find_loop start stop' (data_m l) element)"

definition contains :: "'a List \<Rightarrow> 'a \<Rightarrow> int \<Rightarrow> int \<Rightarrow> error + bool" where
  "contains l element start stop =
     (case find_L l element start stop of Inl e \<Rightarrow> Inl e | Inr r \<Rightarrow> Inr (r \<noteq> - 1))"

function count_loop :: "int \<Rightarrow> int \<Rightarrow> 'a option list \<Rightarrow> 'a \<Rightarrow> int \<Rightarrow> error + int" where
  "count_loop i n d element counter =
     (if i < n then
        (case rd d i of Inl e \<Rightarrow> Inl e | Inr v \<Rightarrow>
         count_loop (i + 1) n d element (if v = element then counter + 1 else counter))
      else Inr counter)"
  by pat_completeness auto
termination
  by (relation "measure (\<lambda>(i, n, d, element, counter). nat (n - i))") auto

declare count_loop.simps [simp del]

definition count_L :: "'a List \<Rightarrow> 'a \<Rightarrow> error + int" where
  "count_L l element = count_loop 0 (size_m l) (data_m l) element 0"

subsection \<open>Insert and remove\<close>

text \<open>\<^verbatim>\<open>for (int i = size_; i > index; --i) data_[i] = data_[i - 1];\<close>\<close>

function shift_right :: "int \<Rightarrow> int \<Rightarrow> 'a option list \<Rightarrow> error + 'a option list" where
  "shift_right i index d =
     (if i > index then
        (case rd d (i - 1) of Inl e \<Rightarrow> Inl e | Inr v \<Rightarrow>
        (case wr d i v of Inl e \<Rightarrow> Inl e | Inr d' \<Rightarrow>
         shift_right (i - 1) index d'))
      else Inr d)"
  by pat_completeness auto
termination
  by (relation "measure (\<lambda>(i, index, d). nat (i - index))") auto

declare shift_right.simps [simp del]

text \<open>The read of \<^verbatim>\<open>element\<close> in \<^verbatim>\<open>data_[index] = element\<close>, the last statement but one of
  \<^verbatim>\<open>insert\<close>. \<open>d\<close> is the buffer at that moment, after the shift; \<open>released\<close> tells
  whether \<^verbatim>\<open>expand_capacity\<close> has run in this call, whose \<^verbatim>\<open>delete[] data_\<close> released
  the buffer of the time of the call. A reference to a slot then reads released
  storage; otherwise it reads the slot as the shift has left it.\<close>

definition read_ref :: "'a elem_ref \<Rightarrow> bool \<Rightarrow> 'a option list \<Rightarrow> error + 'a" where
  "read_ref element released d =
     (case element of
        Outside v \<Rightarrow> Inr v
      | Slot k \<Rightarrow> (if released then Inl Dangling else rd d k))"

text \<open>\<^verbatim>\<open>insert(int index, const T& element)\<close>\<close>

definition insert_L :: "'a List \<Rightarrow> int \<Rightarrow> 'a elem_ref \<Rightarrow> (error + unit) \<times> 'a List" where
  "insert_L l index element =
     (case check_full (size_m l) MAX_CAPACITY of Inl e \<Rightarrow> (Inl e, l) | Inr _ \<Rightarrow>
     (case check_bounds index (- size_m l) (size_m l + 1) of Inl e \<Rightarrow> (Inl e, l) | Inr _ \<Rightarrow>
     (case (if size_m l = capacity_m l then expand_capacity l else (Inr (), l)) of
        (Inl e, l1) \<Rightarrow> (Inl e, l1)
      | (Inr _, l1) \<Rightarrow>
          (let index' = (if index \<ge> 0 then index else index + size_m l1) in
           (case shift_right (size_m l1) index' (data_m l1) of
              Inl e \<Rightarrow> (Inl e, l1)
            | Inr d \<Rightarrow>
               (case read_ref element (size_m l = capacity_m l) d of
                  Inl e \<Rightarrow> (Inl e, l1\<lparr>data_m := d\<rparr>)
                | Inr v \<Rightarrow>
                   (case wr d index' v of
                      Inl e \<Rightarrow> (Inl e, l1\<lparr>data_m := d\<rparr>)
                    | Inr d' \<Rightarrow> (Inr (), l1\<lparr>data_m := d', size_m := size_m l1 + 1\<rparr>))))))))"

text \<open>\<^verbatim>\<open>for (int i = index + 1; i < size_; ++i) data_[i - 1] = data_[i];\<close>\<close>

function shift_left :: "int \<Rightarrow> int \<Rightarrow> 'a option list \<Rightarrow> error + 'a option list" where
  "shift_left i n d =
     (if i < n then
        (case rd d i of Inl e \<Rightarrow> Inl e | Inr v \<Rightarrow>
        (case wr d (i - 1) v of Inl e \<Rightarrow> Inl e | Inr d' \<Rightarrow>
         shift_left (i + 1) n d'))
      else Inr d)"
  by pat_completeness auto
termination
  by (relation "measure (\<lambda>(i, n, d). nat (n - i))") auto

declare shift_left.simps [simp del]

definition remove_L :: "'a List \<Rightarrow> int \<Rightarrow> (error + 'a) \<times> 'a List" where
  "remove_L l index =
     (case check_empty (size_m l) of Inl e \<Rightarrow> (Inl e, l) | Inr _ \<Rightarrow>
     (case check_bounds index (- size_m l) (size_m l) of Inl e \<Rightarrow> (Inl e, l) | Inr _ \<Rightarrow>
       (let index' = (if index \<ge> 0 then index else index + size_m l) in
        (case rd (data_m l) index' of
           Inl e \<Rightarrow> (Inl e, l)
         | Inr element \<Rightarrow>
            (case shift_left (index' + 1) (size_m l) (data_m l) of
               Inl e \<Rightarrow> (Inl e, l)
             | Inr d \<Rightarrow> (Inr element, l\<lparr>data_m := d, size_m := size_m l - 1\<rparr>))))))"

subsection \<open>Append, concatenation, removal by value, repetition\<close>

text \<open>\<^verbatim>\<open>operator+=(const T& element)\<close>\<close>

definition op_plus_eq_elem :: "'a List \<Rightarrow> 'a elem_ref \<Rightarrow> (error + unit) \<times> 'a List" where
  "op_plus_eq_elem l element = insert_L l (size_m l) element"

text \<open>The loop \<^verbatim>\<open>for (int i = 0; i < list.size_; i++) *this += list.data_[i];\<close> of
  \<^verbatim>\<open>operator+=(const List& list)\<close>, where \<open>list\<close> is an object other than \<open>this\<close>:
  the argument of the \<^verbatim>\<open>else\<close> branch, or the local \<^verbatim>\<open>saved_list\<close>. The element
  passed on is a slot of the buffer of \<open>list\<close>, which the append to \<open>this\<close> does not touch:
  a reference outside the receiver, with the value the slot has.\<close>

function concat_loop :: "int \<Rightarrow> 'a List \<Rightarrow> 'a List \<Rightarrow> (error + unit) \<times> 'a List" where
  "concat_loop i list this =
     (if i < size_m list then
        (case rd (data_m list) i of
           Inl e \<Rightarrow> (Inl e, this)
         | Inr v \<Rightarrow>
            (case op_plus_eq_elem this (Outside v) of
               (Inl e, this') \<Rightarrow> (Inl e, this')
             | (Inr _, this') \<Rightarrow> concat_loop (i + 1) list this'))
      else (Inr (), this))"
  by pat_completeness auto
termination
  by (relation "measure (\<lambda>(i, list, this). nat (size_m list - i))") auto

declare concat_loop.simps [simp del]

text \<open>Objects that a call can alias live in a store, a map from addresses to objects;
  \<^verbatim>\<open>this == &list\<close> is the equality of two addresses.\<close>

type_synonym addr = nat

type_synonym 'a store = "addr \<Rightarrow> 'a List"

text \<open>The store in which every address holds the same list; it gives the examples a
  store to run in.\<close>

definition single_store :: "'a List \<Rightarrow> 'a store" where
  "single_store l = (\<lambda>p. l)"

text \<open>The outcome of a member called on the object at \<open>p\<close>, with the object written
  back to the store.\<close>

definition upd :: "addr \<Rightarrow> 'r \<times> 'a List \<Rightarrow> 'a store \<Rightarrow> 'r \<times> 'a store" where
  "upd p res s = (fst res, s(p := snd res))"

definition op_plus_eq_list :: "addr \<Rightarrow> addr \<Rightarrow> 'a store \<Rightarrow> (error + unit) \<times> 'a store" where
  "op_plus_eq_list this list s =
     (if this = list then
        (case List_copy (s list) of
           Inl e \<Rightarrow> (Inl e, s)
         | Inr saved_list \<Rightarrow> upd this (concat_loop 0 saved_list (s this)) s)
      else upd this (concat_loop 0 (s list) (s this)) s)"

text \<open>\<^verbatim>\<open>operator-=(const T& element)\<close>\<close>

definition op_minus_eq :: "'a List \<Rightarrow> 'a \<Rightarrow> (error + unit) \<times> 'a List" where
  "op_minus_eq l element =
     (case find_L l element 0 (MAX_CAPACITY + 1) of
        Inl e \<Rightarrow> (Inl e, l)
      | Inr index \<Rightarrow>
          (if index \<noteq> - 1 then
             (case remove_L l index of (Inl e, l') \<Rightarrow> (Inl e, l') | (Inr _, l') \<Rightarrow> (Inr (), l'))
           else (Inr (), l)))"

subsection \<open>Assignment\<close>

text \<open>The body of the copy assignment under \<^verbatim>\<open>if (this != &that)\<close>: the fields of
  \<open>that\<close>, a fresh buffer, and the elements copied.\<close>

definition assign_from :: "'a List \<Rightarrow> 'a List \<Rightarrow> (error + unit) \<times> 'a List" where
  "assign_from l that =
     (let l1 = l\<lparr>size_m := size_m that, capacity_m := capacity_m that,
                 data_m := new_array (capacity_m that)\<rparr>
      in (case copy_elems 0 (size_m l1) (data_m that) (data_m l1) of
            Inl e \<Rightarrow> (Inl e, l1)
          | Inr d \<Rightarrow> (Inr (), l1\<lparr>data_m := d\<rparr>)))"

definition op_assign_copy :: "addr \<Rightarrow> addr \<Rightarrow> 'a store \<Rightarrow> (error + unit) \<times> 'a store" where
  "op_assign_copy this that s =
     (if this \<noteq> that then upd this (assign_from (s this) (s that)) s
      else (Inr (), s))"

text \<open>The move assignment: under \<^verbatim>\<open>if (this != &that)\<close> the old buffer is released,
  the fields and the buffer of \<open>that\<close> are taken over, and \<open>that\<close> is reset.\<close>

definition op_assign_move :: "addr \<Rightarrow> addr \<Rightarrow> 'a store \<Rightarrow> 'a store" where
  "op_assign_move this that s =
     (if this \<noteq> that then
        (let s1 = s(this := (s this)\<lparr>size_m := size_m (s that),
                      capacity_m := capacity_m (s that), data_m := data_m (s that)\<rparr>)
         in s1(that := (s1 that)\<lparr>size_m := 0, capacity_m := INIT_CAPACITY,
                      data_m := new_array INIT_CAPACITY\<rparr>))
      else s)"

text \<open>\<^verbatim>\<open>operator*=(int times)\<close>, with \<open>ntimes\<close> for its parameter. The local
  \<^verbatim>\<open>List list\<close> is an object of its own, so
  \<^verbatim>\<open>list += *this\<close> takes the \<^verbatim>\<open>else\<close> branch of the concatenation and
  \<^verbatim>\<open>*this = list\<close> the guarded body of the assignment.\<close>

function repeat_loop :: "int \<Rightarrow> int \<Rightarrow> 'a List \<Rightarrow> 'a List \<Rightarrow> (error + unit) \<times> 'a List" where
  "repeat_loop i ntimes this list =
     (if i < ntimes then
        (case concat_loop 0 this list of
           (Inl e, list') \<Rightarrow> (Inl e, list')
         | (Inr _, list') \<Rightarrow> repeat_loop (i + 1) ntimes this list')
      else (Inr (), list))"
  by pat_completeness auto
termination
  by (relation "measure (\<lambda>(i, ntimes, this, list). nat (ntimes - i))") auto

declare repeat_loop.simps [simp del]

definition op_times_eq :: "'a List \<Rightarrow> int \<Rightarrow> (error + unit) \<times> 'a List" where
  "op_times_eq l ntimes =
     (if ntimes < 0 then (Inl InvalidArgument, l)
      else (case repeat_loop 0 ntimes l List_default of
              (Inl e, list) \<Rightarrow> (Inl e, l)
            | (Inr _, list) \<Rightarrow> assign_from l list))"

subsection \<open>Clear, reverse, swap\<close>

definition clear :: "'a List \<Rightarrow> 'a List" where
  "clear l =
     (if size_m l \<noteq> 0 then
        l\<lparr>size_m := 0, capacity_m := INIT_CAPACITY, data_m := new_array INIT_CAPACITY\<rparr>
      else l)"

text \<open>\<^verbatim>\<open>for (int i = 0, j = size_ - 1; i < j; ++i, --j) common::swap(data_[i], data_[j]);\<close>\<close>

function reverse_loop :: "int \<Rightarrow> int \<Rightarrow> 'a option list \<Rightarrow> error + 'a option list" where
  "reverse_loop i j d =
     (if i < j then
        (case swap_slots d i j of Inl e \<Rightarrow> Inl e | Inr d' \<Rightarrow>
         reverse_loop (i + 1) (j - 1) d')
      else Inr d)"
  by pat_completeness auto
termination
  by (relation "measure (\<lambda>(i, j, d). nat (j - i))") auto

declare reverse_loop.simps [simp del]

definition reverse :: "'a List \<Rightarrow> (error + unit) \<times> 'a List" where
  "reverse l =
     (case reverse_loop 0 (size_m l - 1) (data_m l) of
        Inl e \<Rightarrow> (Inl e, l)
      | Inr d \<Rightarrow> (Inr (), l\<lparr>data_m := d\<rparr>))"


subsection \<open>Uniquify\<close>

text \<open>\<^verbatim>\<open>while (count(data_[i]) > 1) *this -= data_[i];\<close> ends only when a removal
  brings the count down, which nothing in the loop itself guarantees; so the two loops
  are partial functions, \<open>None\<close> standing for a run that never returns.\<close>

partial_function (option) uniquify_while ::
  "int \<Rightarrow> 'a List \<Rightarrow> ((error + unit) \<times> 'a List) option" where
  "uniquify_while i l =
     (case rd (data_m l) i of
        Inl e \<Rightarrow> Some (Inl e, l)
      | Inr x \<Rightarrow>
         (case count_L l x of
            Inl e \<Rightarrow> Some (Inl e, l)
          | Inr c \<Rightarrow>
             if c > 1 then
               (case op_minus_eq l x of
                  (Inl e, l') \<Rightarrow> Some (Inl e, l')
                | (Inr _, l') \<Rightarrow> uniquify_while i l')
             else Some (Inr (), l)))"

declare uniquify_while.simps [code]

partial_function (option) uniquify_for ::
  "int \<Rightarrow> 'a List \<Rightarrow> ((error + unit) \<times> 'a List) option" where
  "uniquify_for i l =
     (if i < size_m l then
        (case uniquify_while i l of
           None \<Rightarrow> None
         | Some (Inl e, l') \<Rightarrow> Some (Inl e, l')
         | Some (Inr _, l') \<Rightarrow> uniquify_for (i + 1) l')
      else Some (Inr (), l))"

declare uniquify_for.simps [code]

definition uniquify :: "'a List \<Rightarrow> ((error + unit) \<times> 'a List) option" where
  "uniquify l = uniquify_for 0 l"

subsection \<open>Sort\<close>

text \<open>The inner loop of the bubble sort, over \<open>j < bound\<close> with \<open>bound = size_ - i - 1\<close>,
  and the outer loop with its early exit.\<close>

function sort_inner ::
  "('a \<Rightarrow> 'a \<Rightarrow> bool) \<Rightarrow> int \<Rightarrow> int \<Rightarrow> 'a option list \<Rightarrow> bool \<Rightarrow> error + 'a option list \<times> bool" where
  "sort_inner comparator j bound d swapped =
     (if j < bound then
        (case rd d (j + 1) of Inl e \<Rightarrow> Inl e | Inr e1 \<Rightarrow>
        (case rd d j of Inl e \<Rightarrow> Inl e | Inr e2 \<Rightarrow>
         if comparator e1 e2 then
           (case swap_slots d j (j + 1) of Inl e \<Rightarrow> Inl e | Inr d' \<Rightarrow>
            sort_inner comparator (j + 1) bound d' True)
         else sort_inner comparator (j + 1) bound d swapped))
      else Inr (d, swapped))"
  by pat_completeness auto
termination
  by (relation "measure (\<lambda>(comparator, j, bound, d, swapped). nat (bound - j))") auto

declare sort_inner.simps [simp del]

function sort_outer ::
  "('a \<Rightarrow> 'a \<Rightarrow> bool) \<Rightarrow> int \<Rightarrow> int \<Rightarrow> 'a option list \<Rightarrow> error + 'a option list" where
  "sort_outer comparator i n d =
     (if i < n - 1 then
        (case sort_inner comparator 0 (n - i - 1) d False of
           Inl e \<Rightarrow> Inl e
         | Inr (d', swapped) \<Rightarrow>
            if swapped = False then Inr d' else sort_outer comparator (i + 1) n d')
      else Inr d)"
  by pat_completeness auto
termination
  by (relation "measure (\<lambda>(comparator, i, n, d). nat (n - i))") auto

declare sort_outer.simps [simp del]

definition sort_L :: "'a List \<Rightarrow> ('a \<Rightarrow> 'a \<Rightarrow> bool) \<Rightarrow> (error + unit) \<times> 'a List" where
  "sort_L l comparator =
     (case sort_outer comparator 0 (size_m l) (data_m l) of
        Inl e \<Rightarrow> (Inl e, l)
      | Inr d \<Rightarrow> (Inr (), l\<lparr>data_m := d\<rparr>))"

text \<open>The default comparator \<^verbatim>\<open>[](const T& e1, const T& e2) { return e1 < e2; }\<close>.\<close>

definition default_comparator :: "'a::linorder \<Rightarrow> 'a \<Rightarrow> bool" where
  "default_comparator e1 e2 = (e1 < e2)"

subsection \<open>Slice\<close>

text \<open>The loop \<^verbatim>\<open>for (int i = start; (step > 0) ? (i < stop) : (i > stop); i += step)\<close>.
  \<^verbatim>\<open>slice\<close> enters it with \<open>step \<noteq> 0\<close> only; the first test below repeats that
  check so that the function is total. \<^verbatim>\<open>i += step\<close> is a signed addition. The
  element of \<^verbatim>\<open>list += data_[i]\<close> is a slot of the receiver, outside the buffer of the
  local \<open>list\<close> that the append changes.\<close>

function slice_loop ::
  "int \<Rightarrow> int \<Rightarrow> int \<Rightarrow> 'a option list \<Rightarrow> 'a List \<Rightarrow> error + 'a List" where
  "slice_loop i stop step d list =
     (if step = 0 then Inl InvalidArgument
      else if (if step > 0 then i < stop else i > stop) then
        (case rd d i of Inl e \<Rightarrow> Inl e | Inr v \<Rightarrow>
        (case op_plus_eq_elem list (Outside v) of
           (Inl e, list') \<Rightarrow> Inl e
         | (Inr _, list') \<Rightarrow>
            if i + step < INT_MIN \<or> INT_MAX < i + step then Inl Overflow
            else slice_loop (i + step) stop step d list'))
      else Inr list)"
  by pat_completeness auto
termination
  by (relation "measure (\<lambda>(i, stop, step, d, list).
        if step > 0 then nat (stop - i) else nat (i - stop))") auto

declare slice_loop.simps [simp del]

definition slice :: "'a List \<Rightarrow> int \<Rightarrow> int \<Rightarrow> int \<Rightarrow> error + 'a List" where
  "slice l start stop step =
     (if step = 0 then Inl InvalidArgument
      else
       (case check_bounds start (- size_m l) (size_m l) of Inl e \<Rightarrow> Inl e | Inr _ \<Rightarrow>
       (case check_bounds stop (- size_m l - 1) (size_m l + 1) of Inl e \<Rightarrow> Inl e | Inr _ \<Rightarrow>
         (let start' = (if start < 0 then start + size_m l else start);
              stop' = (if stop < 0 then stop + size_m l else stop)
          in slice_loop start' stop' step (data_m l) List_default))))"

section \<open>The abstract view of a list\<close>

text \<open>The sequence a list holds: the values of its first \<open>size_\<close> slots.\<close>

definition elems :: "'a List \<Rightarrow> 'a list" where
  "elems l = map the (take (nat (size_m l)) (data_m l))"

text \<open>The bounds of the data model, \<open>0 \<le> length \<le> capacity \<le> MAX_CAPACITY\<close> with a
  positive capacity.\<close>

definition bounds_inv :: "'a List \<Rightarrow> bool" where
  "bounds_inv l \<longleftrightarrow>
     0 \<le> size_m l \<and> size_m l \<le> capacity_m l \<and> 0 < capacity_m l \<and> capacity_m l \<le> MAX_CAPACITY"

text \<open>The buffer has \<open>capacity_\<close> slots and the first \<open>size_\<close> of them have been written.\<close>

definition buffer_ok :: "'a List \<Rightarrow> bool" where
  "buffer_ok l \<longleftrightarrow>
     length (data_m l) = nat (capacity_m l) \<and> None \<notin> set (take (nat (size_m l)) (data_m l))"

definition valid :: "'a List \<Rightarrow> bool" where
  "valid l \<longleftrightarrow> bounds_inv l \<and> buffer_ok l"

text \<open>The position an index denotes in a list of length \<open>n\<close>: a negative index counts
  from the end.\<close>

definition resolve :: "int \<Rightarrow> int \<Rightarrow> nat" where
  "resolve index n = nat (if index \<ge> 0 then index else index + n)"

text \<open>The order of first occurrence that the specification of \<^verbatim>\<open>uniquify\<close> names
  ("preserving first-seen order"): every value once, at the place of its first
  occurrence.\<close>

definition first_seen_order :: "'a list \<Rightarrow> 'a list" where
  "first_seen_order xs = rev (remdups (rev xs))"

text \<open>One pass of the bubble sort over a whole list, as a function on lists: the list
  after the pass, and whether the pass swapped anything. The simulation lemmas below
  show that the inner loop computes it on the first \<open>size_ - i\<close> elements.\<close>

fun bubble_pass :: "('a \<Rightarrow> 'a \<Rightarrow> bool) \<Rightarrow> 'a list \<Rightarrow> 'a list \<times> bool" where
  "bubble_pass cmp (x # y # ys) =
     (if cmp y x then (y # fst (bubble_pass cmp (x # ys)), True)
      else (x # fst (bubble_pass cmp (y # ys)), snd (bubble_pass cmp (y # ys))))"
| "bubble_pass cmp [] = ([], False)"
| "bubble_pass cmp [x] = ([x], False)"

text \<open>The contract of a comparator, "\<open>comparator(a, b)\<close> is true iff \<open>a\<close> must precede
  \<open>b\<close>": a strict weak order (irreflexive, transitive, and with a transitive
  incomparability), which is what the default \<open>e1 < e2\<close> is on a linear order.\<close>

definition strict_weak_order :: "('a \<Rightarrow> 'a \<Rightarrow> bool) \<Rightarrow> bool" where
  "strict_weak_order cmp \<longleftrightarrow>
     (\<forall>a. \<not> cmp a a) \<and> (\<forall>a b c. cmp a b \<and> cmp b c \<longrightarrow> cmp a c) \<and>
     (\<forall>a b c. \<not> cmp a b \<and> \<not> cmp b c \<longrightarrow> \<not> cmp a c)"

section \<open>Lemmas\<close>

subsection \<open>Copy, shift, insert and remove\<close>

lemma rd_Some: "0 \<le> i \<Longrightarrow> i < int (length d) \<Longrightarrow> d ! nat i = Some v \<Longrightarrow> rd d i = Inr v"
  by (simp add: rd_def)

lemma wr_ok: "0 \<le> i \<Longrightarrow> i < int (length d) \<Longrightarrow> wr d i v = Inr (d[nat i := Some v])"
  by (simp add: wr_def)

lemma live_nth: "n \<le> length d \<Longrightarrow> None \<notin> set (take n d) \<longleftrightarrow> (\<forall>j<n. d ! j \<noteq> None)"
  by (auto simp: in_set_conv_nth)

lemma valid_slot: "valid l \<Longrightarrow> j < nat (size_m l) \<Longrightarrow> data_m l ! j = Some (elems l ! j)"
  unfolding valid_def buffer_ok_def bounds_inv_def elems_def
  by (auto simp: live_nth)

lemma length_elems: "valid l \<Longrightarrow> length (elems l) = nat (size_m l)"
  unfolding valid_def buffer_ok_def bounds_inv_def elems_def by auto

lemma copy_elems_ok:
  "0 \<le> i \<Longrightarrow> n \<le> int (length src) \<Longrightarrow> n \<le> int (length dst) \<Longrightarrow>
   (\<forall>j. i \<le> int j \<and> int j < n \<longrightarrow> src ! j \<noteq> None) \<Longrightarrow>
   \<exists>dst'. copy_elems i n src dst = Inr dst' \<and> length dst' = length dst \<and>
     (\<forall>j < length dst. dst' ! j = (if i \<le> int j \<and> int j < n then src ! j else dst ! j))"
proof (induction i n src dst rule: copy_elems.induct)
  case (1 i n src dst)
  show ?case
  proof (cases "i < n")
    case False
    then show ?thesis by (subst copy_elems.simps) auto
  next
    case True
    from 1(2-) True have "src ! nat i \<noteq> None" by auto
    then obtain v where v: "src ! nat i = Some v" by auto
    have r: "rd src i = Inr v" using 1(2-) True v by (intro rd_Some) auto
    have w: "wr dst i v = Inr (dst[nat i := Some v])" using 1(2-) True by (intro wr_ok) auto
    from 1(1)[OF True r w] 1(2-) True obtain dst' where
      d: "copy_elems (i + 1) n src (dst[nat i := Some v]) = Inr dst'"
         "length dst' = length dst"
         "\<forall>j < length dst. dst' ! j =
            (if i + 1 \<le> int j \<and> int j < n then src ! j else (dst[nat i := Some v]) ! j)"
      by auto
    have "copy_elems i n src dst = Inr dst'"
      by (subst copy_elems.simps) (simp add: True r w d)
    moreover have "\<forall>j < length dst. dst' ! j = (if i \<le> int j \<and> int j < n then src ! j else dst ! j)"
    proof (intro allI impI)
      fix j assume j: "j < length dst"
      show "dst' ! j = (if i \<le> int j \<and> int j < n then src ! j else dst ! j)"
      proof (cases "j = nat i")
        case True
        then show ?thesis using d(3) j v \<open>i < n\<close> 1(2-) by auto
      next
        case False
        then show ?thesis using d(3) j 1(2-) by auto
      qed
    qed
    ultimately show ?thesis using d(2) by blast
  qed
qed

lemma copy_elems_fresh:
  assumes "valid l" "size_m l \<le> cap"
  shows "\<exists>d. copy_elems 0 (size_m l) (data_m l) (new_array cap) = Inr d \<and> length d = nat cap \<and>
           take (nat (size_m l)) d = take (nat (size_m l)) (data_m l)"
proof -
  have a: "size_m l \<le> int (length (data_m l))" "0 \<le> size_m l"
    using assms unfolding valid_def buffer_ok_def bounds_inv_def by auto
  have b: "size_m l \<le> int (length (new_array cap :: 'a option list))"
    using assms by (simp add: new_array_def)
  have c: "\<forall>j. 0 \<le> int j \<and> int j < size_m l \<longrightarrow> data_m l ! j \<noteq> None"
    using valid_slot[OF assms(1)] by auto
  from copy_elems_ok[OF _ a(1) b c] obtain d where
    d: "copy_elems 0 (size_m l) (data_m l) (new_array cap) = Inr d"
       "length d = length (new_array cap :: 'a option list)"
       "\<forall>j < length (new_array cap :: 'a option list). d ! j =
          (if 0 \<le> int j \<and> int j < size_m l then data_m l ! j else (new_array cap) ! j)"
    by auto
  have "take (nat (size_m l)) d = take (nat (size_m l)) (data_m l)"
    by (rule nth_equalityI) (use d a b in \<open>auto simp: new_array_def min_def split: if_splits\<close>)
  then show ?thesis using d by (auto simp: new_array_def)
qed

lemma expand_capacity_ok:
  assumes "valid l"
  shows "\<exists>d. expand_capacity l = (Inr (), l\<lparr>capacity_m := min (capacity_m l * 2) MAX_CAPACITY, data_m := d\<rparr>)
           \<and> length d = nat (min (capacity_m l * 2) MAX_CAPACITY)
           \<and> take (nat (size_m l)) d = take (nat (size_m l)) (data_m l)"
proof -
  let ?cap = "if capacity_m l < MAX_CAPACITY div 2 then capacity_m l * 2 else MAX_CAPACITY"
  have cap: "?cap = min (capacity_m l * 2) MAX_CAPACITY"
    by (auto simp: MAX_CAPACITY_def INT_MAX_def)
  have "size_m l \<le> ?cap" using assms unfolding valid_def bounds_inv_def by auto
  from copy_elems_fresh[OF assms this] obtain d where
    "copy_elems 0 (size_m l) (data_m l) (new_array ?cap) = Inr d" "length d = nat ?cap"
    "take (nat (size_m l)) d = take (nat (size_m l)) (data_m l)" by blast
  then show ?thesis unfolding expand_capacity_def Let_def cap by auto
qed

lemma shift_right_ok:
  "0 \<le> index \<Longrightarrow> index \<le> i \<Longrightarrow> i < int (length d) \<Longrightarrow>
   (\<forall>j. index \<le> int j \<and> int j < i \<longrightarrow> d ! j \<noteq> None) \<Longrightarrow>
   \<exists>d'. shift_right i index d = Inr d' \<and> length d' = length d \<and>
     (\<forall>j < length d. d' ! j = (if index < int j \<and> int j \<le> i then d ! (j - 1) else d ! j))"
proof (induction i index d rule: shift_right.induct)
  case (1 i index d)
  show ?case
  proof (cases "i > index")
    case False
    then show ?thesis using 1(3) by (subst shift_right.simps) auto
  next
    case True
    from 1(2-) True have "d ! nat (i - 1) \<noteq> None" by auto
    then obtain v where v: "d ! nat (i - 1) = Some v" by auto
    have r: "rd d (i - 1) = Inr v" using 1(2-) True v by (intro rd_Some) auto
    have w: "wr d i v = Inr (d[nat i := Some v])" using 1(2-) True by (intro wr_ok) auto
    have pre: "\<forall>j. index \<le> int j \<and> int j < i - 1 \<longrightarrow> d[nat i := Some v] ! j \<noteq> None"
      using 1(5) by auto
    from 1(1)[OF True r w] 1(2-) True pre obtain d' where
      d: "shift_right (i - 1) index (d[nat i := Some v]) = Inr d'"
         "length d' = length d"
         "\<forall>j < length d. d' ! j = (if index < int j \<and> int j \<le> i - 1
              then (d[nat i := Some v]) ! (j - 1) else (d[nat i := Some v]) ! j)"
      by auto
    have "shift_right i index d = Inr d'"
      by (subst shift_right.simps) (simp add: True r w d)
    moreover have "\<forall>j < length d. d' ! j = (if index < int j \<and> int j \<le> i then d ! (j - 1) else d ! j)"
    proof (intro allI impI)
      fix j assume j: "j < length d"
      show "d' ! j = (if index < int j \<and> int j \<le> i then d ! (j - 1) else d ! j)"
      proof (cases "j = nat i")
        case True
        then show ?thesis using d(3) j v \<open>index < i\<close> 1(2-) by (auto simp: nat_diff_distrib)
      next
        case False
        then show ?thesis using d(3) j 1(2-) by (auto simp: nat_diff_distrib)
      qed
    qed
    ultimately show ?thesis using d(2) by blast
  qed
qed

lemma insert_body:
  fixes d :: "'a option list"
  assumes n: "0 \<le> n" "n < int (length d)" and k: "0 \<le> k" "k \<le> n"
    and live: "\<forall>j < nat n. d ! j \<noteq> None"
  shows "\<exists>d1. shift_right n k d = Inr d1 \<and>
           wr d1 k x = Inr (d1[nat k := Some x]) \<and> length d1 = length d \<and>
           (\<forall>j < nat (n + 1). d1[nat k := Some x] ! j \<noteq> None) \<and>
           map the (take (nat (n + 1)) (d1[nat k := Some x])) =
             take (nat k) (map the (take (nat n) d)) @ x # drop (nat k) (map the (take (nat n) d))"
proof -
  have pre: "\<forall>j. k \<le> int j \<and> int j < n \<longrightarrow> d ! j \<noteq> None" using live by auto
  from shift_right_ok[OF k(1) k(2) n(2) pre] obtain d1 where
    d1: "shift_right n k d = Inr d1" "length d1 = length d"
        "\<forall>j < length d. d1 ! j = (if k < int j \<and> int j \<le> n then d ! (j - 1) else d ! j)"
    by blast
  have w: "wr d1 k x = Inr (d1[nat k := Some x])" using d1(2) n k by (intro wr_ok) auto
  have l2: "\<forall>j < nat (n + 1). d1[nat k := Some x] ! j \<noteq> None"
  proof (intro allI impI)
    fix j assume j: "j < nat (n + 1)"
    show "d1[nat k := Some x] ! j \<noteq> None"
    proof (cases "j = nat k")
      case True then show ?thesis using d1(2) n k by auto
    next
      case False
      have "j < length d" using j n by auto
      then show ?thesis using False d1(3) live j n k by (auto simp: nth_list_update)
    qed
  qed
  have "map the (take (nat (n + 1)) (d1[nat k := Some x])) =
             take (nat k) (map the (take (nat n) d)) @ x # drop (nat k) (map the (take (nat n) d))"
  proof (rule nth_equalityI)
    show "length (map the (take (nat (n + 1)) (d1[nat k := Some x]))) =
      length (take (nat k) (map the (take (nat n) d)) @ x # drop (nat k) (map the (take (nat n) d)))"
      using d1(2) n k by (auto simp: min_def)
  next
    fix j assume "j < length (map the (take (nat (n + 1)) (d1[nat k := Some x])))"
    then have j: "j < nat (n + 1)" "j < length d" using d1(2) n by auto
    show "map the (take (nat (n + 1)) (d1[nat k := Some x])) ! j =
      (take (nat k) (map the (take (nat n) d)) @ x # drop (nat k) (map the (take (nat n) d))) ! j"
    proof (cases "j = nat k")
      case True then show ?thesis using j d1(2) n k by (auto simp: nth_append min_def)
    next
      case False
      then show ?thesis using j d1(2,3) n k
        by (auto simp: nth_append nth_list_update min_def nth_Cons' nat_diff_distrib)
    qed
  qed
  with d1 w l2 show ?thesis by blast
qed

lemma insert_L_steps:
  assumes v: "valid l" and nf: "size_m l \<noteq> MAX_CAPACITY"
    and ix: "- size_m l \<le> index" "index \<le> size_m l"
    and cap: "cap = (if size_m l = capacity_m l then min (capacity_m l * 2) MAX_CAPACITY
                     else capacity_m l)"
    and k: "k = (if index \<ge> 0 then index else index + size_m l)"
  shows "\<exists>d1.
    (\<forall>r. insert_L l index r =
       (case read_ref r (size_m l = capacity_m l) d1 of
          Inl e \<Rightarrow> (Inl e, l\<lparr>capacity_m := cap, data_m := d1\<rparr>)
        | Inr x \<Rightarrow> (Inr (), l\<lparr>capacity_m := cap, data_m := d1[nat k := Some x],
                               size_m := size_m l + 1\<rparr>))) \<and>
    valid (l\<lparr>capacity_m := cap, data_m := d1\<rparr>) \<and>
    (\<forall>x. valid (l\<lparr>capacity_m := cap, data_m := d1[nat k := Some x], size_m := size_m l + 1\<rparr>) \<and>
         elems (l\<lparr>capacity_m := cap, data_m := d1[nat k := Some x], size_m := size_m l + 1\<rparr>) =
           take (resolve index (size_m l)) (elems l) @ x #
           drop (resolve index (size_m l)) (elems l)) \<and>
    (\<forall>j. 0 \<le> j \<and> j < size_m l \<longrightarrow>
         rd d1 j = Inr (elems l ! nat (if j \<le> k then j else j - 1)))"
proof -
  have b: "0 \<le> size_m l" "size_m l \<le> capacity_m l" "0 < capacity_m l" "capacity_m l \<le> MAX_CAPACITY"
    "length (data_m l) = nat (capacity_m l)"
    using v unfolding valid_def bounds_inv_def buffer_ok_def by auto
  have capb: "size_m l < cap" "cap \<le> MAX_CAPACITY" using b nf unfolding cap by auto
  obtain d0 where d0:
    "(if size_m l = capacity_m l then expand_capacity l else (Inr (), l)) =
       (Inr (), l\<lparr>capacity_m := cap, data_m := d0\<rparr>)"
    "length d0 = nat cap" "take (nat (size_m l)) d0 = take (nat (size_m l)) (data_m l)"
  proof (cases "size_m l = capacity_m l")
    case True
    from expand_capacity_ok[OF v] obtain d where
      "expand_capacity l = (Inr (), l\<lparr>capacity_m := min (capacity_m l * 2) MAX_CAPACITY, data_m := d\<rparr>)"
      "length d = nat (min (capacity_m l * 2) MAX_CAPACITY)"
      "take (nat (size_m l)) d = take (nat (size_m l)) (data_m l)" by blast
    then show ?thesis using True that[of d] by (simp add: cap)
  next
    case False
    then show ?thesis using that[of "data_m l"] b by (simp add: cap)
  qed
  have kb: "0 \<le> k" "k \<le> size_m l" using ix unfolding k by auto
  have slot0: "d0 ! j = Some (elems l ! j)" if "j < nat (size_m l)" for j
  proof -
    have "d0 ! j = take (nat (size_m l)) d0 ! j" using that by simp
    also have "\<dots> = data_m l ! j" using that d0(3) by simp
    finally show ?thesis using valid_slot[OF v that] by simp
  qed
  have live0: "\<forall>j < nat (size_m l). d0 ! j \<noteq> None" using slot0 by simp
  have n0: "size_m l < int (length d0)" using capb d0(2) by auto
  have pre: "\<forall>j. k \<le> int j \<and> int j < size_m l \<longrightarrow> d0 ! j \<noteq> None" using live0 by auto
  from shift_right_ok[OF kb(1) kb(2) n0 pre] obtain d1 where
    s: "shift_right (size_m l) k d0 = Inr d1" "length d1 = length d0"
       "\<forall>j < length d0. d1 ! j = (if k < int j \<and> int j \<le> size_m l then d0 ! (j - 1) else d0 ! j)"
    by blast
  have body: "wr d1 k x = Inr (d1[nat k := Some x]) \<and>
      (\<forall>j < nat (size_m l + 1). d1[nat k := Some x] ! j \<noteq> None) \<and>
      map the (take (nat (size_m l + 1)) (d1[nat k := Some x])) =
        take (nat k) (map the (take (nat (size_m l)) d0)) @ x #
        drop (nat k) (map the (take (nat (size_m l)) d0))" for x
    using insert_body[OF b(1) n0 kb live0, of x] s(1) by auto
  have rdj: "rd d1 j = Inr (elems l ! nat (if j \<le> k then j else j - 1))"
    if j: "0 \<le> j" "j < size_m l" for j
  proof -
    have jl: "nat j < length d0" using j n0 by auto
    have "d1 ! nat j = Some (elems l ! nat (if j \<le> k then j else j - 1))"
    proof (cases "j \<le> k")
      case True
      then show ?thesis using s(3) jl j slot0[of "nat j"] by auto
    next
      case False
      have "nat j - 1 < nat (size_m l)" using j by auto
      from slot0[OF this] show ?thesis using s(3) jl j False kb by (auto simp: nat_diff_distrib)
    qed
    then show ?thesis using j jl s(2) by (intro rd_Some) auto
  qed
  have live1: "d1 ! j \<noteq> None" if "j < nat (size_m l)" for j
  proof -
    have "rd d1 (int j) = Inr (elems l ! nat (if int j \<le> k then int j else int j - 1))"
      using rdj[of "int j"] that by auto
    then show ?thesis using that n0 s(2) by (auto simp: rd_def split: if_splits option.splits)
  qed
  have res: "insert_L l index r =
       (case read_ref r (size_m l = capacity_m l) d1 of
          Inl e \<Rightarrow> (Inl e, l\<lparr>capacity_m := cap, data_m := d1\<rparr>)
        | Inr x \<Rightarrow> (Inr (), l\<lparr>capacity_m := cap, data_m := d1[nat k := Some x],
                               size_m := size_m l + 1\<rparr>))" for r
  proof -
    have w: "wr d1 k x = Inr (d1[nat k := Some x])" for x using body[of x] by simp
    show ?thesis
      unfolding insert_L_def check_full_def check_bounds_def
      using nf ix s(1)[unfolded k] w[unfolded k]
      by (cases "read_ref r (size_m l = capacity_m l) d1"; cases "0 \<le> index")
         (simp_all add: d0(1) Let_def k)
  qed
  have v1: "valid (l\<lparr>capacity_m := cap, data_m := d1\<rparr>)"
    unfolding valid_def bounds_inv_def buffer_ok_def
    using b capb s(2) d0(2) live1 by (simp add: live_nth)
  have v2: "valid (l\<lparr>capacity_m := cap, data_m := d1[nat k := Some x], size_m := size_m l + 1\<rparr>)" for x
    unfolding valid_def bounds_inv_def buffer_ok_def
    using b capb s(2) d0(2) body[of x] by (simp add: live_nth)
  have e2: "elems (l\<lparr>capacity_m := cap, data_m := d1[nat k := Some x], size_m := size_m l + 1\<rparr>) =
           take (resolve index (size_m l)) (elems l) @ x #
           drop (resolve index (size_m l)) (elems l)" for x
    using body[of x] d0(3) by (simp add: elems_def resolve_def k)
  show ?thesis using res v1 v2 e2 rdj by blast
qed

lemma insert_L_ok:
  assumes v: "valid l" and nf: "size_m l \<noteq> MAX_CAPACITY"
    and ix: "- size_m l \<le> index" "index \<le> size_m l"
  shows "\<exists>l'. insert_L l index (Outside x) = (Inr (), l') \<and> valid l' \<and>
           size_m l' = size_m l + 1 \<and>
           capacity_m l' = (if size_m l = capacity_m l then min (capacity_m l * 2) MAX_CAPACITY
                            else capacity_m l) \<and>
           elems l' = take (resolve index (size_m l)) (elems l) @ x #
                      drop (resolve index (size_m l)) (elems l)"
proof -
  from insert_L_steps[OF v nf ix refl refl] obtain d1 where
    r: "\<And>r. insert_L l index r =
       (case read_ref r (size_m l = capacity_m l) d1 of
          Inl e \<Rightarrow> (Inl e, l\<lparr>capacity_m := (if size_m l = capacity_m l
                  then min (capacity_m l * 2) MAX_CAPACITY else capacity_m l), data_m := d1\<rparr>)
        | Inr x \<Rightarrow> (Inr (), l\<lparr>capacity_m := (if size_m l = capacity_m l
                  then min (capacity_m l * 2) MAX_CAPACITY else capacity_m l),
                data_m := d1[nat (if index \<ge> 0 then index else index + size_m l) := Some x],
                size_m := size_m l + 1\<rparr>))"
    and s: "\<And>x. valid (l\<lparr>capacity_m := (if size_m l = capacity_m l
                  then min (capacity_m l * 2) MAX_CAPACITY else capacity_m l),
                data_m := d1[nat (if index \<ge> 0 then index else index + size_m l) := Some x],
                size_m := size_m l + 1\<rparr>) \<and>
         elems (l\<lparr>capacity_m := (if size_m l = capacity_m l
                  then min (capacity_m l * 2) MAX_CAPACITY else capacity_m l),
                data_m := d1[nat (if index \<ge> 0 then index else index + size_m l) := Some x],
                size_m := size_m l + 1\<rparr>) =
           take (resolve index (size_m l)) (elems l) @ x #
           drop (resolve index (size_m l)) (elems l)"
    by blast
  show ?thesis using r[of "Outside x"] s[of x] by (simp add: read_ref_def)
qed

lemma shift_left_ok:
  "1 \<le> i \<Longrightarrow> i \<le> n \<Longrightarrow> n \<le> int (length d) \<Longrightarrow>
   (\<forall>j. i \<le> int j \<and> int j < n \<longrightarrow> d ! j \<noteq> None) \<Longrightarrow>
   \<exists>d'. shift_left i n d = Inr d' \<and> length d' = length d \<and>
     (\<forall>j < length d. d' ! j = (if i - 1 \<le> int j \<and> int j < n - 1 then d ! (j + 1) else d ! j))"
proof (induction i n d rule: shift_left.induct)
  case (1 i n d)
  show ?case
  proof (cases "i < n")
    case False
    then show ?thesis using 1(3) by (subst shift_left.simps) auto
  next
    case True
    from 1(2-) True have "d ! nat i \<noteq> None" by auto
    then obtain v where v: "d ! nat i = Some v" by auto
    have r: "rd d i = Inr v" using 1(2-) True v by (intro rd_Some) auto
    have w: "wr d (i - 1) v = Inr (d[nat (i - 1) := Some v])" using 1(2-) True by (intro wr_ok) auto
    have pre: "\<forall>j. i + 1 \<le> int j \<and> int j < n \<longrightarrow> d[nat (i - 1) := Some v] ! j \<noteq> None"
      using 1(2,5) by (auto simp: nth_list_update)
    from 1(1)[OF True r w] 1(2-) True pre obtain d' where
      d: "shift_left (i + 1) n (d[nat (i - 1) := Some v]) = Inr d'"
         "length d' = length d"
         "\<forall>j < length d. d' ! j = (if i + 1 - 1 \<le> int j \<and> int j < n - 1
              then (d[nat (i - 1) := Some v]) ! (j + 1) else (d[nat (i - 1) := Some v]) ! j)"
      by auto
    have "shift_left i n d = Inr d'"
      by (subst shift_left.simps) (simp add: True r w d)
    moreover have "\<forall>j < length d. d' ! j = (if i - 1 \<le> int j \<and> int j < n - 1 then d ! (j + 1) else d ! j)"
    proof (intro allI impI)
      fix j assume j: "j < length d"
      show "d' ! j = (if i - 1 \<le> int j \<and> int j < n - 1 then d ! (j + 1) else d ! j)"
      proof (cases "j = nat (i - 1)")
        case True
        then show ?thesis using d(3) j v \<open>i < n\<close> 1(2-) by (auto simp: nat_diff_distrib nat_add_distrib)
      next
        case False
        then show ?thesis using d(3) j 1(2-) by (auto simp: nat_diff_distrib)
      qed
    qed
    ultimately show ?thesis using d(2) by blast
  qed
qed

lemma remove_L_ok:
  assumes v: "valid l" and ix: "- size_m l \<le> index" "index < size_m l"
  shows "\<exists>l'. remove_L l index = (Inr (elems l ! resolve index (size_m l)), l') \<and> valid l' \<and>
           size_m l' = size_m l - 1 \<and> capacity_m l' = capacity_m l \<and>
           elems l' = take (resolve index (size_m l)) (elems l) @
                      drop (Suc (resolve index (size_m l))) (elems l)"
proof -
  have b: "0 \<le> size_m l" "size_m l \<le> capacity_m l" "0 < capacity_m l" "capacity_m l \<le> MAX_CAPACITY"
    "length (data_m l) = nat (capacity_m l)"
    using v unfolding valid_def bounds_inv_def buffer_ok_def by auto
  define k where "k = (if index \<ge> 0 then index else index + size_m l)"
  have kb: "0 \<le> k" "k < size_m l" using ix unfolding k_def by auto
  have kr: "resolve index (size_m l) = nat k" by (simp add: resolve_def k_def)
  have sl: "data_m l ! nat k = Some (elems l ! nat k)" using valid_slot[OF v, of "nat k"] kb by auto
  have r: "rd (data_m l) k = Inr (elems l ! nat k)" using kb b sl by (intro rd_Some) auto
  have pre: "\<forall>j. k + 1 \<le> int j \<and> int j < size_m l \<longrightarrow> data_m l ! j \<noteq> None"
    using valid_slot[OF v] by auto
  have "1 \<le> k + 1" "k + 1 \<le> size_m l" "size_m l \<le> int (length (data_m l))"
    using kb b by auto
  from shift_left_ok[OF this pre] obtain d1 where d1:
    "shift_left (k + 1) (size_m l) (data_m l) = Inr d1" "length d1 = length (data_m l)"
    "\<forall>j < length (data_m l). d1 ! j =
        (if k + 1 - 1 \<le> int j \<and> int j < size_m l - 1 then data_m l ! (j + 1) else data_m l ! j)"
    by blast
  let ?l' = "l\<lparr>data_m := d1, size_m := size_m l - 1\<rparr>"
  have res: "remove_L l index = (Inr (elems l ! nat k), ?l')"
    unfolding remove_L_def check_empty_def check_bounds_def
    using ix kb r d1(1) by (auto simp: Let_def k_def)
  have live: "\<forall>j < nat (size_m l - 1). d1 ! j \<noteq> None"
    using d1(3) valid_slot[OF v] b kb by auto
  have "valid ?l'"
    unfolding valid_def bounds_inv_def buffer_ok_def
    using b kb d1(2) live by (simp add: live_nth)
  moreover have "elems ?l' = take (nat k) (elems l) @ drop (Suc (nat k)) (elems l)"
  proof (rule nth_equalityI)
    show "length (elems ?l') = length (take (nat k) (elems l) @ drop (Suc (nat k)) (elems l))"
    proof -
      have "length (elems ?l') = nat (size_m l - 1)" using d1(2) b kb by (simp add: elems_def)
      moreover have "length (take (nat k) (elems l) @ drop (Suc (nat k)) (elems l)) = nat (size_m l - 1)"
        using length_elems[OF v] kb by (simp add: min_def) arith
      ultimately show ?thesis by simp
    qed
  next
    fix j assume "j < length (elems ?l')"
    then have j: "j < nat (size_m l - 1)" "j < length (data_m l)" using d1(2) b by (auto simp: elems_def)
    then have e: "elems ?l' ! j = the (d1 ! j)" using d1(2) by (simp add: elems_def)
    show "elems ?l' ! j = (take (nat k) (elems l) @ drop (Suc (nat k)) (elems l)) ! j"
    proof (cases "j < nat k")
      case True
      then have "d1 ! j = data_m l ! j" using d1(3) j by auto
      then have "the (d1 ! j) = elems l ! j" using valid_slot[OF v, of j] j by simp
      then show ?thesis unfolding e using True length_elems[OF v] kb by (simp add: nth_append)
    next
      case False
      then have "d1 ! j = data_m l ! (j + 1)" using d1(3) j kb by auto
      then have "the (d1 ! j) = elems l ! (j + 1)" using valid_slot[OF v, of "j + 1"] j by simp
      moreover have "Suc (nat k) + (j - nat k) = j + 1" using False by simp
      ultimately show ?thesis unfolding e using False length_elems[OF v] kb j
        by (simp add: nth_append min_def)
    qed
  qed
  ultimately show ?thesis using res kr by auto
qed

subsection \<open>Search, count and removal by value\<close>

lemma find_loop_ok:
  "0 \<le> i \<Longrightarrow> stop \<le> int (length d) \<Longrightarrow>
   (\<forall>j. i \<le> int j \<and> int j < stop \<longrightarrow> d ! j \<noteq> None) \<Longrightarrow>
   \<exists>r. find_loop i stop d x = Inr r \<and>
     ((r = - 1 \<and> (\<forall>j. i \<le> int j \<and> int j < stop \<longrightarrow> d ! j \<noteq> Some x)) \<or>
      (i \<le> r \<and> r < stop \<and> d ! nat r = Some x \<and>
       (\<forall>j. i \<le> int j \<and> int j < r \<longrightarrow> d ! j \<noteq> Some x)))"
proof (induction i stop d x rule: find_loop.induct)
  case (1 i stop d x)
  show ?case
  proof (cases "i < stop")
    case False
    then show ?thesis by (subst find_loop.simps) auto
  next
    case True
    from 1(2-) True have "d ! nat i \<noteq> None" by auto
    then obtain v where v: "d ! nat i = Some v" by auto
    have r: "rd d i = Inr v" using 1(2-) True v by (intro rd_Some) auto
    show ?thesis
    proof (cases "v = x")
      case True
      have "find_loop i stop d x = Inr i"
        by (subst find_loop.simps) (simp add: \<open>i < stop\<close> r True)
      then show ?thesis using \<open>i < stop\<close> v True by auto
    next
      case False
      have step: "find_loop i stop d x = find_loop (i + 1) stop d x"
        by (subst find_loop.simps) (simp add: \<open>i < stop\<close> r False)
      have ne: "\<And>j. int j = i \<Longrightarrow> d ! j \<noteq> Some x"
        using v False 1(2) by auto
      from 1(1)[OF True r False] 1(2-) obtain r' where
        r': "find_loop (i + 1) stop d x = Inr r'"
          "(r' = - 1 \<and> (\<forall>j. i + 1 \<le> int j \<and> int j < stop \<longrightarrow> d ! j \<noteq> Some x)) \<or>
           (i + 1 \<le> r' \<and> r' < stop \<and> d ! nat r' = Some x \<and>
            (\<forall>j. i + 1 \<le> int j \<and> int j < r' \<longrightarrow> d ! j \<noteq> Some x))"
        by auto
      have ext: "\<forall>j. i \<le> int j \<and> int j < B \<longrightarrow> d ! j \<noteq> Some x"
        if h: "\<forall>j. i + 1 \<le> int j \<and> int j < B \<longrightarrow> d ! j \<noteq> Some x" for B
      proof (intro allI impI)
        fix j assume j: "i \<le> int j \<and> int j < B"
        show "d ! j \<noteq> Some x"
        proof (cases "int j = i")
          case True then show ?thesis using ne by simp
        next
          case False
          then have "i + 1 \<le> int j" using j by simp
          then show ?thesis using h j by simp
        qed
      qed
      from r'(2) have
        "(r' = - 1 \<and> (\<forall>j. i \<le> int j \<and> int j < stop \<longrightarrow> d ! j \<noteq> Some x)) \<or>
           (i \<le> r' \<and> r' < stop \<and> d ! nat r' = Some x \<and>
            (\<forall>j. i \<le> int j \<and> int j < r' \<longrightarrow> d ! j \<noteq> Some x))"
      proof
        assume a: "r' = - 1 \<and> (\<forall>j. i + 1 \<le> int j \<and> int j < stop \<longrightarrow> d ! j \<noteq> Some x)"
        then show ?thesis using ext[of stop] by blast
      next
        assume a: "i + 1 \<le> r' \<and> r' < stop \<and> d ! nat r' = Some x \<and>
            (\<forall>j. i + 1 \<le> int j \<and> int j < r' \<longrightarrow> d ! j \<noteq> Some x)"
        then have "i \<le> r'" by simp
        then show ?thesis using a ext[of r'] by blast
      qed
      then show ?thesis using step r'(1) by simp
    qed
  qed
qed

lemma remove1_first:
  "k < length xs \<Longrightarrow> xs ! k = x \<Longrightarrow> (\<forall>j<k. xs ! j \<noteq> x) \<Longrightarrow>
   take k xs @ drop (Suc k) xs = remove1 x xs"
proof (induction xs arbitrary: k)
  case Nil
  then show ?case by simp
next
  case (Cons y ys)
  show ?case
  proof (cases k)
    case 0
    then show ?thesis using Cons.prems by simp
  next
    case (Suc k')
    then have "y \<noteq> x" using Cons.prems(3) by auto
    moreover have "take k' ys @ drop (Suc k') ys = remove1 x ys"
      using Cons.prems Suc by (intro Cons.IH) auto
    ultimately show ?thesis using Suc by simp
  qed
qed

lemma find_default:
  assumes v: "valid l"
  shows "(x \<notin> set (elems l) \<and> find_L l x 0 (MAX_CAPACITY + 1) = Inr (- 1)) \<or>
         (\<exists>k. find_L l x 0 (MAX_CAPACITY + 1) = Inr (int k) \<and> k < nat (size_m l) \<and>
              elems l ! k = x \<and> (\<forall>j<k. elems l ! j \<noteq> x))"
proof -
  have b: "0 \<le> size_m l" "size_m l \<le> capacity_m l" "capacity_m l \<le> MAX_CAPACITY"
    "length (data_m l) = nat (capacity_m l)"
    using v unfolding valid_def bounds_inv_def buffer_ok_def by auto
  have f: "find_L l x 0 (MAX_CAPACITY + 1) = find_loop 0 (size_m l) (data_m l) x"
    using b by (simp add: find_L_def)
  have pre: "\<forall>j. 0 \<le> int j \<and> int j < size_m l \<longrightarrow> data_m l ! j \<noteq> None"
    using valid_slot[OF v] by auto
  have "size_m l \<le> int (length (data_m l))" using b by auto
  from find_loop_ok[OF _ this pre, of x] obtain r where r:
    "find_loop 0 (size_m l) (data_m l) x = Inr r"
    "(r = - 1 \<and> (\<forall>j. 0 \<le> int j \<and> int j < size_m l \<longrightarrow> data_m l ! j \<noteq> Some x)) \<or>
      (0 \<le> r \<and> r < size_m l \<and> data_m l ! nat r = Some x \<and>
       (\<forall>j. 0 \<le> int j \<and> int j < r \<longrightarrow> data_m l ! j \<noteq> Some x))"
    by auto
  from r(2) show ?thesis
  proof
    assume a: "r = - 1 \<and> (\<forall>j. 0 \<le> int j \<and> int j < size_m l \<longrightarrow> data_m l ! j \<noteq> Some x)"
    have "x \<notin> set (elems l)"
    proof
      assume "x \<in> set (elems l)"
      then obtain j where "j < length (elems l)" "elems l ! j = x" by (auto simp: in_set_conv_nth)
      then show False using a valid_slot[OF v, of j] length_elems[OF v] by auto
    qed
    then show ?thesis using a f r(1) by simp
  next
    assume a: "0 \<le> r \<and> r < size_m l \<and> data_m l ! nat r = Some x \<and>
       (\<forall>j. 0 \<le> int j \<and> int j < r \<longrightarrow> data_m l ! j \<noteq> Some x)"
    have 1: "nat r < nat (size_m l)" using a by auto
    have 2: "elems l ! nat r = x" using valid_slot[OF v 1] a by simp
    have 3: "\<forall>j<nat r. elems l ! j \<noteq> x"
    proof (intro allI impI)
      fix j assume "j < nat r"
      then have "j < nat (size_m l)" "data_m l ! j \<noteq> Some x" using a by auto
      then show "elems l ! j \<noteq> x" using valid_slot[OF v, of j] by auto
    qed
    have "find_L l x 0 (MAX_CAPACITY + 1) = Inr (int (nat r))" using f r(1) a by simp
    then show ?thesis using 1 2 3 by blast
  qed
qed

lemma count_loop_ok:
  "0 \<le> i \<Longrightarrow> n \<le> int (length d) \<Longrightarrow>
   (\<forall>j. i \<le> int j \<and> int j < n \<longrightarrow> d ! j \<noteq> None) \<Longrightarrow>
   count_loop i n d x c = Inr (c + int (count_list (drop (nat i) (map the (take (nat n) d))) x))"
proof (induction i n d x c rule: count_loop.induct)
  case (1 i n d x c)
  show ?case
  proof (cases "i < n")
    case False
    then show ?thesis by (subst count_loop.simps) auto
  next
    case True
    from 1(2-) True have "d ! nat i \<noteq> None" by auto
    then obtain v where v: "d ! nat i = Some v" by auto
    have r: "rd d i = Inr v" using 1(2-) True v by (intro rd_Some) auto
    have ni: "nat i < length (map the (take (nat n) d))" using True 1(2,3) by auto
    have hd: "map the (take (nat n) d) ! nat i = v" using True 1(2,3) v by auto
    have dr: "drop (nat i) (map the (take (nat n) d)) = v # drop (nat (i + 1)) (map the (take (nat n) d))"
      using Cons_nth_drop_Suc[OF ni] hd 1(2) by (simp add: nat_add_distrib)
    have "count_loop i n d x c = count_loop (i + 1) n d x (if v = x then c + 1 else c)"
      by (subst count_loop.simps) (simp add: True r)
    also have "\<dots> = Inr ((if v = x then c + 1 else c) +
        int (count_list (drop (nat (i + 1)) (map the (take (nat n) d))) x))"
      using 1(1)[OF True r] 1(2-) by auto
    finally show ?thesis unfolding dr by auto
  qed
qed

lemma count_L_ok: "valid l \<Longrightarrow> count_L l x = Inr (int (count_list (elems l) x))"
proof -
  assume v: "valid l"
  have b: "0 \<le> size_m l" "size_m l \<le> int (length (data_m l))"
    using v unfolding valid_def bounds_inv_def buffer_ok_def by auto
  have pre: "\<forall>j. 0 \<le> int j \<and> int j < size_m l \<longrightarrow> data_m l ! j \<noteq> None"
    using valid_slot[OF v] by auto
  show ?thesis unfolding count_L_def elems_def
    using count_loop_ok[OF _ b(2) pre, of x 0] by simp
qed

lemma op_minus_eq_ok:
  assumes v: "valid l"
  shows "\<exists>l'. op_minus_eq l x = (Inr (), l') \<and> valid l' \<and> capacity_m l' = capacity_m l \<and>
           elems l' = remove1 x (elems l) \<and>
           size_m l' = (if x \<in> set (elems l) then size_m l - 1 else size_m l)"
proof -
  from find_default[OF v, of x] show ?thesis
  proof
    assume "x \<notin> set (elems l) \<and> find_L l x 0 (MAX_CAPACITY + 1) = Inr (- 1)"
    then show ?thesis using v by (simp add: op_minus_eq_def remove1_idem)
  next
    assume "\<exists>k. find_L l x 0 (MAX_CAPACITY + 1) = Inr (int k) \<and> k < nat (size_m l) \<and>
              elems l ! k = x \<and> (\<forall>j<k. elems l ! j \<noteq> x)"
    then obtain k where k: "find_L l x 0 (MAX_CAPACITY + 1) = Inr (int k)" "k < nat (size_m l)"
      "elems l ! k = x" "\<forall>j<k. elems l ! j \<noteq> x" by blast
    have rk: "resolve (int k) (size_m l) = k" by (simp add: resolve_def)
    have "- size_m l \<le> int k" "int k < size_m l" using k(2) by auto
    from remove_L_ok[OF v this] obtain l' where l':
      "remove_L l (int k) = (Inr (elems l ! k), l')" "valid l'" "size_m l' = size_m l - 1"
      "capacity_m l' = capacity_m l" "elems l' = take k (elems l) @ drop (Suc k) (elems l)"
      unfolding rk by blast
    have kl: "k < length (elems l)" using k(2) length_elems[OF v] by simp
    have "x \<in> set (elems l)" using kl k(3) by (auto simp: in_set_conv_nth)
    moreover have "op_minus_eq l x = (Inr (), l')"
      using k(1) l'(1) by (simp add: op_minus_eq_def)
    ultimately show ?thesis using l' remove1_first[OF kl k(3,4)] by auto
  qed
qed

subsection \<open>Uniquify\<close>

lemma count_list_pos: "0 < count_list ys y \<longleftrightarrow> y \<in> set ys"
  by (induction ys) auto

lemma remove1_middle: "y \<notin> set p \<Longrightarrow> remove1 y (p @ y # ys) = p @ ys"
  by (induction p) auto

lemma uniquify_while_ok:
  "valid l \<Longrightarrow> elems l = p @ y # ys \<Longrightarrow> set p \<inter> set (y # ys) = {} \<Longrightarrow>
   \<exists>l' y' ys'. uniquify_while (int (length p)) l = Some (Inr (), l') \<and> valid l' \<and>
      capacity_m l' = capacity_m l \<and> elems l' = p @ y' # ys' \<and> y' \<notin> set ys' \<and>
      remdups (y # ys) = y' # remdups ys' \<and> length ys' \<le> length ys \<and>
      set (y' # ys') \<subseteq> set (y # ys)"
proof (induction ys arbitrary: l y)
  case Nil
  have len: "length p < nat (size_m l)" using length_elems[OF Nil(1)] Nil(2) by simp
  have sl: "data_m l ! length p = Some y" using valid_slot[OF Nil(1) len] Nil(2) by simp
  have b: "int (length p) < int (length (data_m l))"
    using Nil(1) len unfolding valid_def bounds_inv_def buffer_ok_def by auto
  have r: "rd (data_m l) (int (length p)) = Inr y" using sl b by (intro rd_Some) auto
  have c: "count_L l y = Inr 1" using count_L_ok[OF Nil(1), of y] Nil(2,3) by simp
  have "uniquify_while (int (length p)) l = Some (Inr (), l)"
    by (subst uniquify_while.simps) (simp add: r c)
  then show ?case using Nil by auto
next
  case (Cons y1 ys1)
  have len: "length p < nat (size_m l)" using length_elems[OF Cons(2)] Cons(3) by simp
  have sl: "data_m l ! length p = Some y" using valid_slot[OF Cons(2) len] Cons(3) by simp
  have b: "int (length p) < int (length (data_m l))"
    using Cons(2) len unfolding valid_def bounds_inv_def buffer_ok_def by auto
  have r: "rd (data_m l) (int (length p)) = Inr y" using sl b by (intro rd_Some) auto
  have c: "count_L l y = Inr (1 + int (count_list (y1 # ys1) y))"
    using count_L_ok[OF Cons(2), of y] Cons(3,4) by simp
  show ?case
  proof (cases "y \<in> set (y1 # ys1)")
    case False
    then have "count_list (y1 # ys1) y = 0" using count_list_pos[of "y1 # ys1" y] by simp
    then have "uniquify_while (int (length p)) l = Some (Inr (), l)"
      using c by (subst uniquify_while.simps) (simp add: r)
    then show ?thesis using Cons(2,3) False by auto
  next
    case True
    then have "0 < count_list (y1 # ys1) y" using count_list_pos[of "y1 # ys1" y] by simp
    then obtain cnt where cnt: "count_L l y = Inr cnt" "1 < cnt" using c by simp
    from op_minus_eq_ok[OF Cons(2), of y] obtain l1 where l1:
      "op_minus_eq l y = (Inr (), l1)" "valid l1" "capacity_m l1 = capacity_m l"
      "elems l1 = remove1 y (elems l)" by blast
    have "y \<notin> set p" using Cons(4) by auto
    then have e1: "elems l1 = p @ y1 # ys1" using l1(4) Cons(3) by (simp add: remove1_middle)
    have step: "uniquify_while (int (length p)) l = uniquify_while (int (length p)) l1"
      by (subst uniquify_while.simps) (simp add: r cnt l1(1))
    have "set p \<inter> set (y1 # ys1) = {}" using Cons(4) by auto
    from Cons(1)[OF l1(2) e1 this] obtain l' y' ys' where
      "uniquify_while (int (length p)) l1 = Some (Inr (), l')" "valid l'"
      "capacity_m l' = capacity_m l1" "elems l' = p @ y' # ys'" "y' \<notin> set ys'"
      "remdups (y1 # ys1) = y' # remdups ys'" "length ys' \<le> length ys1"
      "set (y' # ys') \<subseteq> set (y1 # ys1)"
      by blast
    then show ?thesis using step l1(3) True by (auto)
  qed
qed


lemma uniquify_for_ok:
  "valid l \<Longrightarrow> elems l = p @ zs \<Longrightarrow> distinct p \<Longrightarrow> set p \<inter> set zs = {} \<Longrightarrow>
   \<exists>l'. uniquify_for (int (length p)) l = Some (Inr (), l') \<and> valid l' \<and>
      capacity_m l' = capacity_m l \<and> elems l' = p @ remdups zs"
proof (induction "length zs" arbitrary: l p zs rule: less_induct)
  case less
  have sz: "size_m l = int (length p) + int (length zs)"
    using length_elems[OF less(2)] less(3) less(2)
    unfolding valid_def bounds_inv_def by auto
  show ?case
  proof (cases zs)
    case Nil
    then have "uniquify_for (int (length p)) l = Some (Inr (), l)"
      using sz by (subst uniquify_for.simps) simp
    then show ?thesis using less(2,3) Nil by simp
  next
    case (Cons y ys)
    have e: "elems l = p @ y # ys" using less(3) Cons by simp
    have d: "set p \<inter> set (y # ys) = {}" using less(5) Cons by simp
    from uniquify_while_ok[OF less(2) e d] obtain l1 y' ys' where w:
      "uniquify_while (int (length p)) l = Some (Inr (), l1)" "valid l1"
      "capacity_m l1 = capacity_m l" "elems l1 = p @ y' # ys'" "y' \<notin> set ys'"
      "remdups (y # ys) = y' # remdups ys'" "length ys' \<le> length ys"
      "set (y' # ys') \<subseteq> set (y # ys)" by blast
    have step: "uniquify_for (int (length p)) l = uniquify_for (int (length (p @ [y']))) l1"
      using sz Cons by (subst uniquify_for.simps) (simp add: w(1) add.commute)
    have 1: "length ys' < length zs" using w(7) Cons by simp
    have 2: "elems l1 = (p @ [y']) @ ys'" using w(4) by simp
    have 3: "distinct (p @ [y'])" using less(4) d w(8) by auto
    have 4: "set (p @ [y']) \<inter> set ys' = {}" using d w(5,8) by auto
    from less(1)[OF 1 w(2) 2 3 4] obtain l' where
      "uniquify_for (int (length (p @ [y']))) l1 = Some (Inr (), l')" "valid l'"
      "capacity_m l' = capacity_m l1" "elems l' = (p @ [y']) @ remdups ys'" by blast
    then show ?thesis using step w(3,6) Cons by simp
  qed
qed

lemma uniquify_ok:
  assumes "valid l"
  shows "\<exists>l'. uniquify l = Some (Inr (), l') \<and> valid l' \<and> capacity_m l' = capacity_m l \<and>
           elems l' = remdups (elems l)"
  using uniquify_for_ok[OF assms, of "[]" "elems l"] by (simp add: uniquify_def)

subsection \<open>Capacity under removal, the default list\<close>

lemma remove_L_capacity: "capacity_m (snd (remove_L l index)) = capacity_m l"
  by (simp add: remove_L_def Let_def split: sum.splits)

lemma valid_List_default: "valid List_default"
  by (simp add: valid_def bounds_inv_def buffer_ok_def List_default_def new_array_def
      INIT_CAPACITY_def MAX_CAPACITY_def INT_MAX_def)

subsection \<open>Search from a start that is not negative\<close>

lemma find_L_nonneg_start:
  assumes v: "valid l" and s: "0 \<le> start"
  shows "\<exists>r. find_L l x start stop = Inr r \<and>
     ((r = - 1 \<and> (\<forall>j. start \<le> int j \<and> int j < min stop (size_m l) \<longrightarrow> elems l ! j \<noteq> x)) \<or>
      (start \<le> r \<and> r < min stop (size_m l) \<and> elems l ! nat r = x \<and>
       (\<forall>j. start \<le> int j \<and> int j < r \<longrightarrow> elems l ! j \<noteq> x)))"
proof -
  define stop' where "stop' = min stop (size_m l)"
  have b: "0 \<le> size_m l" "size_m l \<le> int (length (data_m l))"
    using v unfolding valid_def bounds_inv_def buffer_ok_def by auto
  have f: "find_L l x start stop = find_loop start stop' (data_m l) x"
    by (simp add: find_L_def stop'_def min_def)
  have le: "stop' \<le> int (length (data_m l))" "stop' \<le> size_m l" using b by (auto simp: stop'_def)
  have sl: "\<And>j. int j < stop' \<Longrightarrow> data_m l ! j = Some (elems l ! j)"
    using valid_slot[OF v] le(2) by auto
  then have pre: "\<forall>j. start \<le> int j \<and> int j < stop' \<longrightarrow> data_m l ! j \<noteq> None" by auto
  from find_loop_ok[OF s le(1) pre, of x] obtain r where r:
    "find_loop start stop' (data_m l) x = Inr r"
    "(r = - 1 \<and> (\<forall>j. start \<le> int j \<and> int j < stop' \<longrightarrow> data_m l ! j \<noteq> Some x)) \<or>
      (start \<le> r \<and> r < stop' \<and> data_m l ! nat r = Some x \<and>
       (\<forall>j. start \<le> int j \<and> int j < r \<longrightarrow> data_m l ! j \<noteq> Some x))"
    by blast
  from r(2) have
    "(r = - 1 \<and> (\<forall>j. start \<le> int j \<and> int j < stop' \<longrightarrow> elems l ! j \<noteq> x)) \<or>
      (start \<le> r \<and> r < stop' \<and> elems l ! nat r = x \<and>
       (\<forall>j. start \<le> int j \<and> int j < r \<longrightarrow> elems l ! j \<noteq> x))"
  proof
    assume a: "r = - 1 \<and> (\<forall>j. start \<le> int j \<and> int j < stop' \<longrightarrow> data_m l ! j \<noteq> Some x)"
    then have "\<forall>j. start \<le> int j \<and> int j < stop' \<longrightarrow> elems l ! j \<noteq> x" using sl by auto
    then show ?thesis using a by blast
  next
    assume a: "start \<le> r \<and> r < stop' \<and> data_m l ! nat r = Some x \<and>
       (\<forall>j. start \<le> int j \<and> int j < r \<longrightarrow> data_m l ! j \<noteq> Some x)"
    have "elems l ! nat r = x" using sl[of "nat r"] a s by auto
    moreover have "\<forall>j. start \<le> int j \<and> int j < r \<longrightarrow> elems l ! j \<noteq> x"
    proof (intro allI impI)
      fix j assume j: "start \<le> int j \<and> int j < r"
      then have "data_m l ! j \<noteq> Some x" "int j < stop'" using a by auto
      then show "elems l ! j \<noteq> x" using sl[of j] by auto
    qed
    ultimately show ?thesis using a by blast
  qed
  then show ?thesis using f r(1) by (simp add: stop'_def)
qed

subsection \<open>Buffers as a live part and a rest\<close>

lemma valid_split: "valid l \<Longrightarrow> data_m l = map Some (elems l) @ drop (nat (size_m l)) (data_m l)"
proof -
  assume v: "valid l"
  have "take (nat (size_m l)) (data_m l) = map Some (elems l)"
  proof (rule nth_equalityI)
    show "length (take (nat (size_m l)) (data_m l)) = length (map Some (elems l))"
      by (simp add: elems_def)
  next
    fix j assume "j < length (take (nat (size_m l)) (data_m l))"
    then have j: "j < nat (size_m l)" "j < length (data_m l)" by auto
    have "j < length (elems l)" using j length_elems[OF v] by simp
    then show "take (nat (size_m l)) (data_m l) ! j = map Some (elems l) ! j"
      using valid_slot[OF v j(1)] j by simp
  qed
  then show ?thesis by (metis append_take_drop_id)
qed

lemma rd_live: "rd (map Some (pre @ x # post) @ junk) (int (length pre)) = Inr x"
  by (simp add: rd_def nth_append)

lemma wr_live:
  "wr (map Some (pre @ x # post) @ junk) (int (length pre)) v =
     Inr (map Some (pre @ v # post) @ junk)"
  by (simp add: wr_def list_update_append)

lemma swap_adjacent:
  "swap_slots (map Some (pre @ x # y # post) @ junk) (int (length pre)) (int (length pre) + 1) =
     Inr (map Some (pre @ y # x # post) @ junk)"
proof -
  have a: "int (length pre) + 1 = int (length (pre @ [x]))" by simp
  have r2: "rd (map Some (pre @ x # y # post) @ junk) (int (length pre) + 1) = Inr y"
    unfolding a using rd_live[of "pre @ [x]" y post junk] by simp
  have w2: "wr (map Some (pre @ y # y # post) @ junk) (int (length pre) + 1) x =
      Inr (map Some (pre @ y # x # post) @ junk)"
    unfolding a using wr_live[of "pre @ [y]" y post junk x] by simp
  show ?thesis
    unfolding swap_slots_def by (simp only: rd_live r2 wr_live w2 sum.case)
qed

lemma sort_inner_sim:
  "mid \<noteq> [] \<Longrightarrow>
   sort_inner cmp (int (length pre)) (int (length pre + length mid) - 1)
     (map Some (pre @ mid @ suf) @ junk) sw =
   Inr (map Some (pre @ fst (bubble_pass cmp mid) @ suf) @ junk, sw \<or> snd (bubble_pass cmp mid))"
proof (induction cmp mid arbitrary: pre sw rule: bubble_pass.induct)
  case (1 cmp x y ys)
  let ?d = "map Some (pre @ (x # y # ys) @ suf) @ junk"
  have a: "int (length pre) + 1 = int (length (pre @ [x]))" by simp
  have r1: "rd ?d (int (length pre) + 1) = Inr y"
    unfolding a using rd_live[of "pre @ [x]" y "ys @ suf" junk] by simp
  have r0: "rd ?d (int (length pre)) = Inr x"
    using rd_live[of pre x "y # ys @ suf" junk] by simp
  have lt: "int (length pre) < int (length pre + length (x # y # ys)) - 1" by simp
  show ?case
  proof (cases "cmp y x")
    case True
    define d' where "d' = map Some ((pre @ [y]) @ (x # ys) @ suf) @ junk"
    have sw: "swap_slots ?d (int (length pre)) (int (length pre) + 1) = Inr d'"
      using swap_adjacent[of pre x y "ys @ suf" junk] by (simp add: d'_def)
    have "sort_inner cmp (int (length pre)) (int (length pre + length (x # y # ys)) - 1) ?d sw =
          sort_inner cmp (int (length pre) + 1) (int (length pre + length (x # y # ys)) - 1) d' True"
      apply (subst sort_inner.simps)
      apply (simp only: lt if_True r1 r0 sum.case True sw)
      done
    also have "\<dots> =
          sort_inner cmp (int (length (pre @ [y]))) (int (length (pre @ [y]) + length (x # ys)) - 1)
            (map Some ((pre @ [y]) @ (x # ys) @ suf) @ junk) True"
      by (simp add: d'_def add.commute)
    also have "\<dots> = Inr (map Some ((pre @ [y]) @ fst (bubble_pass cmp (x # ys)) @ suf) @ junk,
         True \<or> snd (bubble_pass cmp (x # ys)))"
      using 1(1)[OF True, of "pre @ [y]" True] by simp
    finally show ?thesis using True by simp
  next
    case False
    have "sort_inner cmp (int (length pre)) (int (length pre + length (x # y # ys)) - 1) ?d sw =
          sort_inner cmp (int (length pre) + 1) (int (length pre + length (x # y # ys)) - 1) ?d sw"
      apply (subst sort_inner.simps)
      apply (simp only: lt if_True r1 r0 sum.case False if_False)
      done
    also have "\<dots> =
          sort_inner cmp (int (length (pre @ [x]))) (int (length (pre @ [x]) + length (y # ys)) - 1)
            (map Some ((pre @ [x]) @ (y # ys) @ suf) @ junk) sw"
      by (simp add: add.commute)
    also have "\<dots> = Inr (map Some ((pre @ [x]) @ fst (bubble_pass cmp (y # ys)) @ suf) @ junk,
         sw \<or> snd (bubble_pass cmp (y # ys)))"
      using 1(2)[OF False, of "pre @ [x]" sw] by simp
    finally show ?thesis using False by simp
  qed
next
  case (2 cmp)
  then show ?case by simp
next
  case (3 cmp v)
  show ?case by (subst sort_inner.simps) simp
qed


lemma bubble_pass_length: "length (fst (bubble_pass cmp xs)) = length xs"
  by (induction cmp xs rule: bubble_pass.induct) auto

lemma bubble_pass_mset: "mset (fst (bubble_pass cmp xs)) = mset xs"
  by (induction cmp xs rule: bubble_pass.induct) auto

lemma bubble_pass_nonempty: "xs \<noteq> [] \<Longrightarrow> fst (bubble_pass cmp xs) \<noteq> []"
  using bubble_pass_length[of cmp xs] by (metis length_0_conv)

lemma swo_asym: "strict_weak_order cmp \<Longrightarrow> cmp a b \<Longrightarrow> \<not> cmp b a"
  unfolding strict_weak_order_def by blast

lemma swo_le_trans: "strict_weak_order cmp \<Longrightarrow> \<not> cmp b a \<Longrightarrow> \<not> cmp c b \<Longrightarrow> \<not> cmp c a"
  unfolding strict_weak_order_def by blast

lemma swo_equiv_apart:
  "strict_weak_order cmp \<Longrightarrow> cmp y x \<Longrightarrow>
   \<not> ((\<not> cmp a x \<and> \<not> cmp x a) \<and> (\<not> cmp a y \<and> \<not> cmp y a))"
  unfolding strict_weak_order_def by blast

lemma bubble_pass_stable:
  "strict_weak_order cmp \<Longrightarrow>
   filter (\<lambda>z. \<not> cmp a z \<and> \<not> cmp z a) (fst (bubble_pass cmp xs)) =
   filter (\<lambda>z. \<not> cmp a z \<and> \<not> cmp z a) xs"
proof (induction cmp xs rule: bubble_pass.induct)
  case (1 cmp x y ys)
  show ?case
  proof (cases "cmp y x")
    case True
    then show ?thesis
      using "1.IH"(1)[OF True "1.prems"] swo_equiv_apart[OF "1.prems" True, of a] by auto
  next
    case False
    then show ?thesis using "1.IH"(2)[OF False "1.prems"] by simp
  qed
qed simp_all

lemma bubble_pass_last_max:
  "strict_weak_order cmp \<Longrightarrow> xs \<noteq> [] \<Longrightarrow>
   \<forall>a \<in> set xs. \<not> cmp (last (fst (bubble_pass cmp xs))) a"
proof (induction cmp xs rule: bubble_pass.induct)
  case (1 cmp x y ys)
  show ?case
  proof (cases "cmp y x")
    case True
    define m where "m = last (fst (bubble_pass cmp (x # ys)))"
    have ne: "fst (bubble_pass cmp (x # ys)) \<noteq> []" by (rule bubble_pass_nonempty) simp
    have e: "last (fst (bubble_pass cmp (x # y # ys))) = m"
      using True ne by (simp add: m_def)
    have ih: "\<forall>a \<in> set (x # ys). \<not> cmp m a"
      unfolding m_def by (rule "1.IH"(1)[OF True "1.prems"(1)]) simp
    then have "\<not> cmp m x" by simp
    then have "\<not> cmp m y"
      using swo_le_trans[OF "1.prems"(1), of x y m] swo_asym[OF "1.prems"(1) True] by blast
    then show ?thesis unfolding e using ih by simp
  next
    case False
    define m where "m = last (fst (bubble_pass cmp (y # ys)))"
    have ne: "fst (bubble_pass cmp (y # ys)) \<noteq> []" by (rule bubble_pass_nonempty) simp
    have e: "last (fst (bubble_pass cmp (x # y # ys))) = m"
      using False ne by (simp add: m_def)
    have ih: "\<forall>a \<in> set (y # ys). \<not> cmp m a"
      unfolding m_def by (rule "1.IH"(2)[OF False "1.prems"(1)]) simp
    then have "\<not> cmp m y" by simp
    then have "\<not> cmp m x"
      using swo_le_trans[OF "1.prems"(1), of y x m] False by blast
    then show ?thesis unfolding e using ih by simp
  qed
next
  case (2 cmp)
  then show ?case by simp
next
  case (3 cmp v)
  have "\<not> cmp v v" using 3(1) unfolding strict_weak_order_def by blast
  then show ?case by simp
qed

lemma bubble_pass_no_swap:
  "strict_weak_order cmp \<Longrightarrow> \<not> snd (bubble_pass cmp xs) \<Longrightarrow>
   fst (bubble_pass cmp xs) = xs \<and> sorted_wrt (\<lambda>a b. \<not> cmp b a) xs"
proof (induction cmp xs rule: bubble_pass.induct)
  case (1 cmp x y ys)
  have nc: "\<not> cmp y x" using "1.prems"(2) by (auto split: if_splits)
  then have ns: "\<not> snd (bubble_pass cmp (y # ys))" using "1.prems"(2) by simp
  from "1.IH"(2)[OF nc "1.prems"(1) ns] have ih: "fst (bubble_pass cmp (y # ys)) = y # ys"
    "sorted_wrt (\<lambda>a b. \<not> cmp b a) (y # ys)" by auto
  have "\<forall>z \<in> set ys. \<not> cmp z x"
    using ih(2) nc swo_le_trans[OF "1.prems"(1), of y x] by auto
  then show ?case using nc ih by simp
qed simp_all

lemma sort_outer_done:
  "length P \<le> 1 \<Longrightarrow>
   sort_outer cmp (int (length S)) (int (length (P @ S))) (map Some (P @ S) @ junk) =
     Inr (map Some (P @ S) @ junk)"
proof -
  assume "length P \<le> 1"
  then have "\<not> int (length S) < int (length (P @ S)) - 1" by simp
  then show ?thesis by (subst sort_outer.simps) (simp only: if_False)
qed

lemma sort_outer_step:
  assumes "\<not> length P \<le> 1"
  shows "sort_outer cmp (int (length S)) (int (length (P @ S))) (map Some (P @ S) @ junk) =
     (if snd (bubble_pass cmp P) then
        sort_outer cmp (int (length S) + 1) (int (length (P @ S)))
          (map Some (fst (bubble_pass cmp P) @ S) @ junk)
      else Inr (map Some (fst (bubble_pass cmp P) @ S) @ junk))"
proof -
  have ne: "P \<noteq> []" using assms by auto
  have inner: "sort_inner cmp 0 (int (length (P @ S)) - int (length S) - 1)
            (map Some (P @ S) @ junk) False =
          Inr (map Some (fst (bubble_pass cmp P) @ S) @ junk, snd (bubble_pass cmp P))"
    using sort_inner_sim[OF ne, of cmp "[]" S junk False] by simp
  have lt: "int (length S) < int (length (P @ S)) - 1" using assms by simp
  show ?thesis
    apply (subst sort_outer.simps)
    apply (simp only: lt if_True inner sum.case prod.case)
    apply (cases "snd (bubble_pass cmp P)")
     apply (simp_all only: if_True if_False simp_thms)
    done
qed


lemma sort_outer_sim:
  "strict_weak_order cmp \<Longrightarrow> sorted_wrt (\<lambda>a b. \<not> cmp b a) S \<Longrightarrow>
   (\<forall>a \<in> set P. \<forall>b \<in> set S. \<not> cmp b a) \<Longrightarrow>
   \<exists>ys. sort_outer cmp (int (length S)) (int (length (P @ S))) (map Some (P @ S) @ junk) =
           Inr (map Some ys @ junk) \<and>
        sorted_wrt (\<lambda>a b. \<not> cmp b a) ys \<and> mset ys = mset (P @ S) \<and>
        (\<forall>a. filter (\<lambda>z. \<not> cmp a z \<and> \<not> cmp z a) ys =
             filter (\<lambda>z. \<not> cmp a z \<and> \<not> cmp z a) (P @ S))"
proof (induction "length P" arbitrary: P S rule: less_induct)
  case less
  show ?case
  proof (cases "length P \<le> 1")
    case True
    have "sorted_wrt (\<lambda>a b. \<not> cmp b a) P"
      using True by (cases P) auto
    then have "sorted_wrt (\<lambda>a b. \<not> cmp b a) (P @ S)"
      using less(3,4) by (simp add: sorted_wrt_append)
    then show ?thesis using sort_outer_done[OF True, of cmp S junk] by blast
  next
    case False
    then have ne: "P \<noteq> []" by auto
    define P' where "P' = fst (bubble_pass cmp P)"
    have lp: "length P' = length P" by (simp add: P'_def bubble_pass_length)
    have msP: "mset P' = mset P" by (simp add: P'_def bubble_pass_mset)
    have stP: "\<And>a. filter (\<lambda>z. \<not> cmp a z \<and> \<not> cmp z a) P' =
                  filter (\<lambda>z. \<not> cmp a z \<and> \<not> cmp z a) P"
      by (simp add: P'_def bubble_pass_stable[OF less(2)])
    show ?thesis
    proof (cases "snd (bubble_pass cmp P)")
      case False
      have r: "sort_outer cmp (int (length S)) (int (length (P @ S))) (map Some (P @ S) @ junk) =
          Inr (map Some (P' @ S) @ junk)"
        using sort_outer_step[OF \<open>\<not> length P \<le> 1\<close>, of cmp S junk] False
        by (simp only: if_False P'_def)
      have PP: "P' = P" "sorted_wrt (\<lambda>a b. \<not> cmp b a) P"
        using bubble_pass_no_swap[OF less(2) False] by (auto simp: P'_def)
      have "sorted_wrt (\<lambda>a b. \<not> cmp b a) (P @ S)"
        using less(3,4) PP(2) by (simp add: sorted_wrt_append)
      then show ?thesis using r unfolding PP(1) by blast
    next
      case True
      have P'ne: "P' \<noteq> []" using ne lp by auto
      define Q where "Q = butlast P'"
      define m where "m = last P'"
      have split: "P' = Q @ [m]" using P'ne by (simp add: Q_def m_def)
      have setP: "set P' = set P" using msP by (metis set_mset_mset)
      have mx: "\<forall>a \<in> set P. \<not> cmp m a"
        using bubble_pass_last_max[OF less(2) ne] by (simp add: m_def P'_def)
      have step: "sort_outer cmp (int (length S)) (int (length (P @ S))) (map Some (P @ S) @ junk) =
          sort_outer cmp (int (length S) + 1) (int (length (P @ S))) (map Some (P' @ S) @ junk)"
        using sort_outer_step[OF \<open>\<not> length P \<le> 1\<close>, of cmp S junk] True
        by (simp only: if_True P'_def)
      have lP: "length P = Suc (length Q)" using lp split by simp
      have eq2: "sort_outer cmp (int (length S) + 1) (int (length (P @ S))) (map Some (P' @ S) @ junk) =
           sort_outer cmp (int (length (m # S))) (int (length (Q @ m # S))) (map Some (Q @ m # S) @ junk)"
        by (simp add: lP split add.commute)
      have 1: "length Q < length P" using lP by simp
      have mP: "m \<in> set P" using setP split by auto
      have 2: "sorted_wrt (\<lambda>a b. \<not> cmp b a) (m # S)" using less(3,4) mP by auto
      have QP: "set Q \<subseteq> set P" using setP split by auto
      have 3: "\<forall>a \<in> set Q. \<forall>b \<in> set (m # S). \<not> cmp b a" using QP mx less(4) by auto
      from less(1)[OF 1 less(2) 2 3] obtain ys where ys:
        "sort_outer cmp (int (length (m # S))) (int (length (Q @ m # S))) (map Some (Q @ m # S) @ junk) =
           Inr (map Some ys @ junk)"
        "sorted_wrt (\<lambda>a b. \<not> cmp b a) ys" "mset ys = mset (Q @ m # S)"
        "\<forall>a. filter (\<lambda>z. \<not> cmp a z \<and> \<not> cmp z a) ys =
             filter (\<lambda>z. \<not> cmp a z \<and> \<not> cmp z a) (Q @ m # S)" by blast
      have res: "sort_outer cmp (int (length S)) (int (length (P @ S))) (map Some (P @ S) @ junk) =
           Inr (map Some ys @ junk)"
        by (simp only: step eq2 ys(1))
      have "mset ys = mset (P @ S)" using ys(3) msP split by simp
      moreover have "\<forall>a. filter (\<lambda>z. \<not> cmp a z \<and> \<not> cmp z a) ys =
             filter (\<lambda>z. \<not> cmp a z \<and> \<not> cmp z a) (P @ S)"
      proof
        fix a
        let ?f = "\<lambda>z. \<not> cmp a z \<and> \<not> cmp z a"
        have "filter ?f ys = filter ?f (Q @ m # S)" using ys(4) by blast
        also have "\<dots> = filter ?f (Q @ [m]) @ filter ?f S" by simp
        also have "\<dots> = filter ?f P @ filter ?f S" using stP[of a] split by simp
        finally show "filter ?f ys = filter ?f (P @ S)" by simp
      qed
      ultimately show ?thesis using res ys(2) by blast
    qed
  qed
qed

lemma split_valid:
  assumes "bounds_inv l" "length (data_m l) = nat (capacity_m l)"
    "data_m l = map Some ys @ junk" "size_m l = int (length ys)"
  shows "valid l" "elems l = ys"
proof -
  have t: "take (nat (size_m l)) (data_m l) = map Some ys" using assms(3,4) by simp
  show "elems l = ys" unfolding elems_def t by (simp add: comp_def)
  show "valid l" unfolding valid_def buffer_ok_def t using assms(1,2) by auto
qed

lemma sort_L_ok:
  assumes v: "valid l" and swo: "strict_weak_order cmp"
  shows "\<exists>l'. sort_L l cmp = (Inr (), l') \<and> valid l' \<and> size_m l' = size_m l \<and>
           capacity_m l' = capacity_m l \<and>
           sorted_wrt (\<lambda>a b. \<not> cmp b a) (elems l') \<and> mset (elems l') = mset (elems l) \<and>
           (\<forall>a. filter (\<lambda>z. \<not> cmp a z \<and> \<not> cmp z a) (elems l') =
                filter (\<lambda>z. \<not> cmp a z \<and> \<not> cmp z a) (elems l))"
proof -
  define junk where "junk = drop (nat (size_m l)) (data_m l)"
  have d: "data_m l = map Some (elems l) @ junk" using valid_split[OF v] by (simp add: junk_def)
  have b: "bounds_inv l" "length (data_m l) = nat (capacity_m l)"
    using v unfolding valid_def buffer_ok_def by auto
  have sz: "size_m l = int (length (elems l))"
    using length_elems[OF v] b(1) unfolding bounds_inv_def by simp
  from sort_outer_sim[OF swo, of "[]" "elems l" junk] obtain ys where ys:
    "sort_outer cmp 0 (int (length (elems l))) (map Some (elems l) @ junk) = Inr (map Some ys @ junk)"
    "sorted_wrt (\<lambda>a b. \<not> cmp b a) ys" "mset ys = mset (elems l)"
    "\<forall>a. filter (\<lambda>z. \<not> cmp a z \<and> \<not> cmp z a) ys =
         filter (\<lambda>z. \<not> cmp a z \<and> \<not> cmp z a) (elems l)"
    by auto
  have len: "length ys = length (elems l)" using ys(3) by (metis size_mset)
  let ?l' = "l\<lparr>data_m := map Some ys @ junk\<rparr>"
  have res: "sort_L l cmp = (Inr (), ?l')"
    unfolding sort_L_def sz using ys(1) d by simp
  have 1: "bounds_inv ?l'" using b(1) by (simp add: bounds_inv_def)
  have "length (data_m l) = length ys + length junk" using d len
    by (metis length_append length_map)
  then have 2: "length (data_m ?l') = nat (capacity_m ?l')" using b(2) by simp
  have 3: "size_m ?l' = int (length ys)" using sz len by simp
  have "valid ?l'" "elems ?l' = ys" using split_valid[OF 1 2 _ 3] by simp_all
  then show ?thesis using res ys(2,3,4) by (intro exI[of _ ?l']) simp
qed

lemma swo_default_comparator: "strict_weak_order (default_comparator :: 'a::linorder \<Rightarrow> 'a \<Rightarrow> bool)"
  unfolding strict_weak_order_def default_comparator_def by auto

subsection \<open>Reverse\<close>




subsection \<open>Append and concatenation\<close>

lemma plus_eq_elem_ok:
  assumes v: "valid l" and nf: "size_m l \<noteq> MAX_CAPACITY"
  shows "\<exists>l'. op_plus_eq_elem l (Outside x) = (Inr (), l') \<and> valid l' \<and> size_m l' = size_m l + 1 \<and>
           elems l' = elems l @ [x]"
proof -
  have b: "0 \<le> size_m l" using v unfolding valid_def bounds_inv_def by auto
  have r: "resolve (size_m l) (size_m l) = length (elems l)"
    using b length_elems[OF v] by (simp add: resolve_def)
  from insert_L_ok[OF v nf, of "size_m l" x] b obtain l' where
    "insert_L l (size_m l) (Outside x) = (Inr (), l')" "valid l'" "size_m l' = size_m l + 1"
    "elems l' = take (resolve (size_m l) (size_m l)) (elems l) @ x #
                drop (resolve (size_m l) (size_m l)) (elems l)" by auto
  then show ?thesis unfolding r by (auto simp: op_plus_eq_elem_def)
qed

lemma plus_eq_elem_full:
  "size_m l = MAX_CAPACITY \<Longrightarrow> op_plus_eq_elem l r = (Inl CapacityExceeded, l)"
  by (simp add: op_plus_eq_elem_def insert_L_def check_full_def)

lemma concat_loop_ok:
  "valid list \<Longrightarrow> valid this \<Longrightarrow> 0 \<le> i \<Longrightarrow> i \<le> size_m list \<Longrightarrow>
   (size_m this + (size_m list - i) \<le> MAX_CAPACITY \<longrightarrow>
      (\<exists>this'. concat_loop i list this = (Inr (), this') \<and> valid this' \<and>
         size_m this' = size_m this + (size_m list - i) \<and>
         elems this' = elems this @ drop (nat i) (elems list))) \<and>
   (size_m this + (size_m list - i) > MAX_CAPACITY \<longrightarrow>
      (\<exists>this'. concat_loop i list this = (Inl CapacityExceeded, this') \<and> valid this'))"
proof (induction i list this rule: concat_loop.induct)
  case (1 i list this)
  have tb: "size_m this \<le> MAX_CAPACITY" using 1(3) unfolding valid_def bounds_inv_def by auto
  show ?case
  proof (cases "i < size_m list")
    case False
    then have "concat_loop i list this = (Inr (), this)"
      by (subst concat_loop.simps) simp
    moreover have "i = size_m list" using False 1(5) by simp
    ultimately show ?thesis using 1(2,3) tb length_elems[OF 1(2)] by simp
  next
    case True
    have j: "nat i < nat (size_m list)" using True 1(4) by auto
    have sl: "data_m list ! nat i = Some (elems list ! nat i)" using valid_slot[OF 1(2) j] .
    have lb: "i < int (length (data_m list))"
      using 1(2) True unfolding valid_def bounds_inv_def buffer_ok_def by auto
    have r: "rd (data_m list) i = Inr (elems list ! nat i)" using 1(4) lb sl by (intro rd_Some) auto
    show ?thesis
    proof (cases "size_m this = MAX_CAPACITY")
      case full: True
      have "concat_loop i list this = (Inl CapacityExceeded, this)"
        by (subst concat_loop.simps) (simp add: True r plus_eq_elem_full[OF full])
      then show ?thesis using full True 1(3) by simp
    next
      case nf: False
      from plus_eq_elem_ok[OF 1(3) nf, of "elems list ! nat i"] obtain t1 where t1:
        "op_plus_eq_elem this (Outside (elems list ! nat i)) = (Inr (), t1)" "valid t1"
        "size_m t1 = size_m this + 1" "elems t1 = elems this @ [elems list ! nat i]" by blast
      have step: "concat_loop i list this = concat_loop (i + 1) list t1"
        by (subst concat_loop.simps) (simp add: True r t1(1))
      have ih: "(size_m t1 + (size_m list - (i + 1)) \<le> MAX_CAPACITY \<longrightarrow>
          (\<exists>this'. concat_loop (i + 1) list t1 = (Inr (), this') \<and> valid this' \<and>
             size_m this' = size_m t1 + (size_m list - (i + 1)) \<and>
             elems this' = elems t1 @ drop (nat (i + 1)) (elems list))) \<and>
         (size_m t1 + (size_m list - (i + 1)) > MAX_CAPACITY \<longrightarrow>
          (\<exists>this'. concat_loop (i + 1) list t1 = (Inl CapacityExceeded, this') \<and> valid this'))"
        using 1(1)[OF True r t1(1)[symmetric] refl 1(2) t1(2)] 1(4) True by simp
      have dr: "drop (nat i) (elems list) = elems list ! nat i # drop (nat (i + 1)) (elems list)"
        using Cons_nth_drop_Suc[of "nat i" "elems list"] j length_elems[OF 1(2)] 1(4)
        by (simp add: nat_add_distrib)
      have sz: "size_m t1 + (size_m list - (i + 1)) = size_m this + (size_m list - i)"
        using t1(3) by simp
      show ?thesis using ih unfolding sz step dr t1(4) by simp
    qed
  qed
qed

lemma List_copy_ok:
  assumes v: "valid l"
  shows "\<exists>l'. List_copy l = Inr l' \<and> valid l' \<and> size_m l' = size_m l \<and>
           capacity_m l' = capacity_m l \<and> elems l' = elems l"
proof -
  have b: "bounds_inv l" "size_m l \<le> capacity_m l" using v unfolding valid_def bounds_inv_def by auto
  from copy_elems_fresh[OF v b(2)] obtain d where d:
    "copy_elems 0 (size_m l) (data_m l) (new_array (capacity_m l)) = Inr d"
    "length d = nat (capacity_m l)"
    "take (nat (size_m l)) d = take (nat (size_m l)) (data_m l)" by blast
  let ?l' = "\<lparr>size_m = size_m l, capacity_m = capacity_m l, data_m = d\<rparr>"
  have "List_copy l = Inr ?l'" unfolding List_copy_def using d(1) by simp
  moreover have "valid ?l'" using v d(2,3) unfolding valid_def bounds_inv_def buffer_ok_def by simp
  moreover have "elems ?l' = elems l" using d(3) by (simp add: elems_def)
  ultimately show ?thesis by (intro exI[of _ ?l']) simp
qed

lemma assign_from_ok:
  assumes v: "valid that"
  shows "\<exists>l'. assign_from l that = (Inr (), l') \<and> valid l' \<and> size_m l' = size_m that \<and>
           capacity_m l' = capacity_m that \<and> elems l' = elems that"
proof -
  have b: "bounds_inv that" "size_m that \<le> capacity_m that"
    using v unfolding valid_def bounds_inv_def by auto
  from copy_elems_fresh[OF v b(2)] obtain d where d:
    "copy_elems 0 (size_m that) (data_m that) (new_array (capacity_m that)) = Inr d"
    "length d = nat (capacity_m that)"
    "take (nat (size_m that)) d = take (nat (size_m that)) (data_m that)" by blast
  let ?l' = "l\<lparr>size_m := size_m that, capacity_m := capacity_m that, data_m := d\<rparr>"
  have "assign_from l that = (Inr (), ?l')" unfolding assign_from_def Let_def using d(1) by simp
  moreover have "valid ?l'" using v d(2,3) unfolding valid_def bounds_inv_def buffer_ok_def by simp
  moreover have "elems ?l' = elems that" using d(3) by (simp add: elems_def)
  ultimately show ?thesis by (intro exI[of _ ?l']) simp
qed

subsection \<open>Self-concatenation\<close>

lemma self_concat_outcome:
  assumes v: "valid (s c)"
  shows "(2 * size_m (s c) \<le> MAX_CAPACITY \<longrightarrow>
           (\<exists>l'. op_plus_eq_list c c s = (Inr (), s(c := l')) \<and> valid l' \<and>
                 size_m l' = 2 * size_m (s c) \<and> elems l' = elems (s c) @ elems (s c))) \<and>
         (2 * size_m (s c) > MAX_CAPACITY \<longrightarrow>
           (\<exists>l'. op_plus_eq_list c c s = (Inl CapacityExceeded, s(c := l')) \<and> valid l'))"
proof -
  from List_copy_ok[OF v] obtain saved where saved:
    "List_copy (s c) = Inr saved" "valid saved" "size_m saved = size_m (s c)"
    "elems saved = elems (s c)" by blast
  have b: "0 \<le> size_m saved" using saved(2) unfolding valid_def bounds_inv_def by auto
  have r: "op_plus_eq_list c c s = upd c (concat_loop 0 saved (s c)) s"
    by (simp add: op_plus_eq_list_def saved(1))
  from concat_loop_ok[OF saved(2) v order_refl b]
  show ?thesis unfolding r upd_def saved(3,4) by auto
qed

subsection \<open>Repetition\<close>

lemma repeat_loop_ok:
  "valid this \<Longrightarrow> valid list \<Longrightarrow> 0 \<le> i \<Longrightarrow> i \<le> ntimes \<Longrightarrow>
   (size_m list + (ntimes - i) * size_m this \<le> MAX_CAPACITY \<longrightarrow>
      (\<exists>list'. repeat_loop i ntimes this list = (Inr (), list') \<and> valid list' \<and>
         size_m list' = size_m list + (ntimes - i) * size_m this \<and>
         elems list' = elems list @ concat (replicate (nat (ntimes - i)) (elems this)))) \<and>
   (size_m list + (ntimes - i) * size_m this > MAX_CAPACITY \<longrightarrow>
      fst (repeat_loop i ntimes this list) = Inl CapacityExceeded)"
proof (induction i ntimes this list rule: repeat_loop.induct)
  case (1 i ntimes this list)
  have lb: "size_m list \<le> MAX_CAPACITY" "0 \<le> size_m this"
    using 1(2,3) unfolding valid_def bounds_inv_def by auto
  show ?case
  proof (cases "i < ntimes")
    case False
    then have "repeat_loop i ntimes this list = (Inr (), list)"
      by (subst repeat_loop.simps) simp
    moreover have "i = ntimes" using False 1(5) by simp
    ultimately show ?thesis using 1(3) lb by simp
  next
    case True
    have grow: "size_m list + size_m this \<le> size_m list + (ntimes - i) * size_m this"
    proof -
      have "1 * size_m this \<le> (ntimes - i) * size_m this"
        using True lb(2) by (intro mult_right_mono) auto
      then show ?thesis by simp
    qed
    note c = concat_loop_ok[OF 1(2) 1(3) order_refl lb(2)]
    show ?thesis
    proof (cases "size_m list + size_m this \<le> MAX_CAPACITY")
      case fits: True
      from c fits obtain l1 where l1:
        "concat_loop 0 this list = (Inr (), l1)" "valid l1"
        "size_m l1 = size_m list + size_m this" "elems l1 = elems list @ elems this"
        by auto
      have step: "repeat_loop i ntimes this list = repeat_loop (i + 1) ntimes this l1"
        by (subst repeat_loop.simps) (simp add: True l1(1))
      have ih: "(size_m l1 + (ntimes - (i + 1)) * size_m this \<le> MAX_CAPACITY \<longrightarrow>
          (\<exists>list'. repeat_loop (i + 1) ntimes this l1 = (Inr (), list') \<and> valid list' \<and>
             size_m list' = size_m l1 + (ntimes - (i + 1)) * size_m this \<and>
             elems list' = elems l1 @ concat (replicate (nat (ntimes - (i + 1))) (elems this)))) \<and>
         (size_m l1 + (ntimes - (i + 1)) * size_m this > MAX_CAPACITY \<longrightarrow>
          fst (repeat_loop (i + 1) ntimes this l1) = Inl CapacityExceeded)"
        using 1(1)[OF True l1(1)[symmetric] refl 1(2) l1(2)] 1(4) True by simp
      have sz: "size_m l1 + (ntimes - (i + 1)) * size_m this =
                size_m list + (ntimes - i) * size_m this"
        unfolding l1(3) by (simp add: algebra_simps)
      have "nat (ntimes - i) = Suc (nat (ntimes - (i + 1)))" using True by simp
      then have rp: "concat (replicate (nat (ntimes - i)) (elems this)) =
                 elems this @ concat (replicate (nat (ntimes - (i + 1))) (elems this))"
        by simp
      show ?thesis using ih unfolding sz step rp l1(4) by simp
    next
      case over: False
      then have "MAX_CAPACITY < size_m list + (size_m this - 0)" by simp
      with c obtain l1 where "concat_loop 0 this list = (Inl CapacityExceeded, l1)" by blast
      then have "fst (repeat_loop i ntimes this list) = Inl CapacityExceeded"
        by (subst repeat_loop.simps) (simp add: True)
      then show ?thesis using over grow by simp
    qed
  qed
qed

lemma op_times_eq_outcome:
  assumes v: "valid l"
  shows "(ntimes < 0 \<longrightarrow> op_times_eq l ntimes = (Inl InvalidArgument, l)) \<and>
         (0 \<le> ntimes \<and> ntimes * size_m l \<le> MAX_CAPACITY \<longrightarrow>
            (\<exists>l'. op_times_eq l ntimes = (Inr (), l') \<and> valid l' \<and>
               size_m l' = ntimes * size_m l \<and>
               elems l' = concat (replicate (nat ntimes) (elems l)))) \<and>
         (0 \<le> ntimes \<and> ntimes * size_m l > MAX_CAPACITY \<longrightarrow>
            op_times_eq l ntimes = (Inl CapacityExceeded, l))"
proof (cases "ntimes < 0")
  case True
  then show ?thesis by (simp add: op_times_eq_def)
next
  case False
  then have nn: "0 \<le> ntimes" by simp
  have e0: "size_m (List_default :: 'a List) = 0" "elems (List_default :: 'a List) = []"
    by (simp_all add: List_default_def elems_def)
  note r = repeat_loop_ok[OF v valid_List_default order_refl nn, unfolded e0]
  show ?thesis
  proof (cases "ntimes * size_m l \<le> MAX_CAPACITY")
    case fits: True
    from r fits obtain list where list:
      "repeat_loop 0 ntimes l List_default = (Inr (), list)" "valid list"
      "size_m list = ntimes * size_m l" "elems list = concat (replicate (nat ntimes) (elems l))"
      by auto
    from assign_from_ok[OF list(2), of l] obtain l' where
      "assign_from l list = (Inr (), l')" "valid l'" "size_m l' = size_m list"
      "elems l' = elems list" by blast
    then show ?thesis using False fits list by (simp add: op_times_eq_def)
  next
    case over: False
    with r have "fst (repeat_loop 0 ntimes l List_default) = Inl CapacityExceeded" by simp
    then obtain x2 where "repeat_loop 0 ntimes l List_default = (Inl CapacityExceeded, x2)"
      by (cases "repeat_loop 0 ntimes l List_default") auto
    then have "op_times_eq l ntimes = (Inl CapacityExceeded, l)"
      using False by (simp add: op_times_eq_def)
    then show ?thesis using False over by simp
  qed
qed

subsection \<open>Equality and slicing\<close>

lemma eq_loop_ok:
  "0 \<le> i \<Longrightarrow> i \<le> n \<Longrightarrow> n = int (length xs) \<Longrightarrow> length ys = length xs \<Longrightarrow>
   eq_loop i n (map Some xs @ j1) (map Some ys @ j2) = Inr (drop (nat i) xs = drop (nat i) ys)"
proof (induction "nat (n - i)" arbitrary: i rule: less_induct)
  case less
  show ?case
  proof (cases "i < n")
    case False
    then have "i = n" using less(3) by simp
    then show ?thesis using less(4,5) by (subst eq_loop.simps) simp
  next
    case True
    have k: "nat i < length xs" "nat i < length ys" using True less(2,4,5) by auto
    have r1: "rd (map Some xs @ j1) i = Inr (xs ! nat i)"
      using k(1) less(2) by (simp add: rd_def nth_append)
    have r2: "rd (map Some ys @ j2) i = Inr (ys ! nat i)"
      using k(2) less(2) by (simp add: rd_def nth_append)
    have d1: "drop (nat i) xs = xs ! nat i # drop (nat (i + 1)) xs"
      using Cons_nth_drop_Suc[OF k(1)] less(2) by (simp add: nat_add_distrib)
    have d2: "drop (nat i) ys = ys ! nat i # drop (nat (i + 1)) ys"
      using Cons_nth_drop_Suc[OF k(2)] less(2) by (simp add: nat_add_distrib)
    show ?thesis
    proof (cases "xs ! nat i = ys ! nat i")
      case False
      have "eq_loop i n (map Some xs @ j1) (map Some ys @ j2) = Inr False"
        by (subst eq_loop.simps) (simp add: True r1 r2 False)
      then show ?thesis unfolding d1 d2 using False by simp
    next
      case same: True
      have "eq_loop i n (map Some xs @ j1) (map Some ys @ j2) =
            eq_loop (i + 1) n (map Some xs @ j1) (map Some ys @ j2)"
        by (subst eq_loop.simps) (simp add: True r1 r2 same)
      also have "\<dots> = Inr (drop (nat (i + 1)) xs = drop (nat (i + 1)) ys)"
        using less(1)[of "i + 1"] True less(2,4,5) by simp
      finally show ?thesis unfolding d1 d2 using same by simp
    qed
  qed
qed

lemma op_eq_ok:
  assumes "valid a" "valid b"
  shows "op_eq a b = Inr (elems a = elems b)"
proof (cases "size_m a = size_m b")
  case False
  then have "length (elems a) \<noteq> length (elems b)"
    using length_elems[OF assms(1)] length_elems[OF assms(2)] assms
    unfolding valid_def bounds_inv_def by auto
  then have "elems a \<noteq> elems b" by auto
  then show ?thesis using False by (simp add: op_eq_def)
next
  case True
  have sa: "size_m a = int (length (elems a))"
    using length_elems[OF assms(1)] assms(1) unfolding valid_def bounds_inv_def by simp
  have sb: "length (elems b) = length (elems a)"
    using length_elems[OF assms(1)] length_elems[OF assms(2)] True by simp
  have "op_eq a b = eq_loop 0 (size_m a)
      (map Some (elems a) @ drop (nat (size_m a)) (data_m a))
      (map Some (elems b) @ drop (nat (size_m b)) (data_m b))"
    using True valid_split[OF assms(1)] valid_split[OF assms(2)] by (simp add: op_eq_def)
  also have "\<dots> = Inr (drop (nat 0) (elems a) = drop (nat 0) (elems b))"
    using sa by (intro eq_loop_ok[OF _ _ sa sb]) simp_all
  finally show ?thesis by simp
qed

lemma rd_errors: "rd d i = Inl e \<Longrightarrow> e = OutOfBounds \<or> e = Uninitialised"
  by (auto simp: rd_def split: if_splits option.splits)

lemma plus_eq_elem_cases:
  assumes "valid l"
  shows "(\<exists>l'. op_plus_eq_elem l (Outside x) = (Inr (), l') \<and> valid l') \<or>
         op_plus_eq_elem l (Outside x) = (Inl CapacityExceeded, l)"
  using plus_eq_elem_ok[OF assms, of x] plus_eq_elem_full[of l "Outside x"] by blast

lemma slice_loop_not_range_error:
  "valid acc \<Longrightarrow> slice_loop i stop step d acc \<noteq> Inl IndexOutOfRange"
proof (induction i stop step d acc rule: slice_loop.induct)
  case (1 i stop step d list)
  show ?case
  proof (cases "step \<noteq> 0 \<and> (if step > 0 then i < stop else i > stop)")
    case False
    then show ?thesis by (subst slice_loop.simps) auto
  next
    case True
    then have s0: "step \<noteq> 0" and c: "(if step > 0 then i < stop else i > stop)" by auto
    show ?thesis
    proof (cases "rd d i")
      case (Inl e)
      then have "slice_loop i stop step d list = Inl e"
        using s0 c by (subst slice_loop.simps) simp
      then show ?thesis using rd_errors[OF Inl] by auto
    next
      case (Inr v)
      from plus_eq_elem_cases[OF 1(2), of v] show ?thesis
      proof
        assume "op_plus_eq_elem list (Outside v) = (Inl CapacityExceeded, list)"
        then have "slice_loop i stop step d list = Inl CapacityExceeded"
          using s0 c Inr by (subst slice_loop.simps) simp
        then show ?thesis by simp
      next
        assume "\<exists>l'. op_plus_eq_elem list (Outside v) = (Inr (), l') \<and> valid l'"
        then obtain l' where l': "op_plus_eq_elem list (Outside v) = (Inr (), l')" "valid l'" by blast
        show ?thesis
        proof (cases "i + step < INT_MIN \<or> INT_MAX < i + step")
          case True
          then have "slice_loop i stop step d list = Inl Overflow"
            using s0 c Inr l'(1) by (subst slice_loop.simps) simp
          then show ?thesis by simp
        next
          case False
          have "slice_loop i stop step d list = slice_loop (i + step) stop step d l'"
            using s0 c Inr l'(1) False by (subst slice_loop.simps) simp
          moreover have "slice_loop (i + step) stop step d l' \<noteq> Inl IndexOutOfRange"
            using 1(1)[OF s0 c Inr l'(1)[symmetric] refl False l'(2)] .
          ultimately show ?thesis by simp
        qed
      qed
    qed
  qed
qed

lemma slice_loop_unit_step:
  "valid l \<Longrightarrow> valid acc \<Longrightarrow> 0 \<le> i \<Longrightarrow> i \<le> stop \<Longrightarrow> stop \<le> size_m l \<Longrightarrow>
   size_m acc + (stop - i) \<le> MAX_CAPACITY \<Longrightarrow>
   \<exists>acc'. slice_loop i stop 1 (data_m l) acc = Inr acc' \<and> valid acc' \<and>
      elems acc' = elems acc @ drop (nat i) (take (nat stop) (elems l))"
proof (induction "nat (stop - i)" arbitrary: i acc rule: less_induct)
  case less
  show ?case
  proof (cases "i < stop")
    case False
    then have "i = stop" using less(5) by simp
    then have "slice_loop i stop 1 (data_m l) acc = Inr acc"
      by (subst slice_loop.simps) simp
    then show ?thesis using less(3) \<open>i = stop\<close> by simp
  next
    case True
    have j: "nat i < nat (size_m l)" using True less(4,6) by auto
    have sl: "data_m l ! nat i = Some (elems l ! nat i)" using valid_slot[OF less(2) j] .
    have lb: "i < int (length (data_m l))"
      using less(2,6) True unfolding valid_def bounds_inv_def buffer_ok_def by auto
    have r: "rd (data_m l) i = Inr (elems l ! nat i)" using less(4) lb sl by (intro rd_Some) auto
    have nf: "size_m acc \<noteq> MAX_CAPACITY" using less(7) True by auto
    from plus_eq_elem_ok[OF less(3) nf, of "elems l ! nat i"] obtain a1 where a1:
      "op_plus_eq_elem acc (Outside (elems l ! nat i)) = (Inr (), a1)" "valid a1"
      "size_m a1 = size_m acc + 1" "elems a1 = elems acc @ [elems l ! nat i]" by blast
    have mx: "size_m l \<le> MAX_CAPACITY" using less(2) unfolding valid_def bounds_inv_def by auto
    have no: "\<not> (i + 1 < INT_MIN \<or> INT_MAX < i + 1)"
      using True less(4,6) mx by (simp add: INT_MIN_def MAX_CAPACITY_def INT_MAX_def)
    have step: "slice_loop i stop 1 (data_m l) acc = slice_loop (i + 1) stop 1 (data_m l) a1"
      using True r a1(1) no by (subst slice_loop.simps) simp
    have m: "nat (stop - (i + 1)) < nat (stop - i)" using True by simp
    from less(1)[OF m less(2) a1(2)] less(4,6,7) True a1(3) obtain acc' where acc':
      "slice_loop (i + 1) stop 1 (data_m l) a1 = Inr acc'" "valid acc'"
      "elems acc' = elems a1 @ drop (nat (i + 1)) (take (nat stop) (elems l))" by auto
    have k: "nat i < length (take (nat stop) (elems l))"
      using True less(4,6) length_elems[OF less(2)] by simp
    have "take (nat stop) (elems l) ! nat i = elems l ! nat i" using True less(4) by simp
    then have dr: "drop (nat i) (take (nat stop) (elems l)) =
        elems l ! nat i # drop (nat (i + 1)) (take (nat stop) (elems l))"
      using Cons_nth_drop_Suc[OF k] less(4) by (simp add: nat_add_distrib)
    show ?thesis using step acc' a1(4) unfolding dr by simp
  qed
qed

subsection \<open>Validity after each operation\<close>

lemma expand_capacity_valid:
  assumes v: "valid l" and nf: "size_m l \<noteq> MAX_CAPACITY"
  shows "\<exists>l1. expand_capacity l = (Inr (), l1) \<and> valid l1 \<and> size_m l1 = size_m l \<and>
           capacity_m l1 = min (capacity_m l * 2) MAX_CAPACITY \<and> elems l1 = elems l \<and>
           (size_m l = capacity_m l \<longrightarrow> size_m l1 < capacity_m l1)"
proof -
  from expand_capacity_ok[OF v] obtain d where d:
    "expand_capacity l = (Inr (), l\<lparr>capacity_m := min (capacity_m l * 2) MAX_CAPACITY, data_m := d\<rparr>)"
    "length d = nat (min (capacity_m l * 2) MAX_CAPACITY)"
    "take (nat (size_m l)) d = take (nat (size_m l)) (data_m l)" by blast
  let ?l1 = "l\<lparr>capacity_m := min (capacity_m l * 2) MAX_CAPACITY, data_m := d\<rparr>"
  have b: "0 \<le> size_m l" "size_m l \<le> capacity_m l" "0 < capacity_m l" "capacity_m l \<le> MAX_CAPACITY"
    "None \<notin> set (take (nat (size_m l)) (data_m l))"
    using v unfolding valid_def bounds_inv_def buffer_ok_def by auto
  have "valid ?l1" unfolding valid_def bounds_inv_def buffer_ok_def
    using b d(2,3) by (simp add: MAX_CAPACITY_def INT_MAX_def)
  moreover have "elems ?l1 = elems l" using d(3) by (simp add: elems_def)
  moreover have "size_m l = capacity_m l \<longrightarrow> size_m ?l1 < capacity_m ?l1"
    using b nf by auto
  ultimately show ?thesis using d(1) by (intro exI[of _ ?l1]) simp
qed

lemma insert_L_rejects:
  "size_m l = MAX_CAPACITY \<Longrightarrow> insert_L l index r = (Inl CapacityExceeded, l)"
  "size_m l \<noteq> MAX_CAPACITY \<Longrightarrow> index < - size_m l \<or> size_m l < index \<Longrightarrow>
     insert_L l index r = (Inl IndexOutOfRange, l)"
  by (auto simp: insert_L_def check_full_def check_bounds_def)


lemma insert_L_same_capacity:
  "size_m l \<noteq> capacity_m l \<Longrightarrow> capacity_m (snd (insert_L l index r)) = capacity_m l"
  by (simp add: insert_L_def Let_def split: sum.splits)

text \<open>An element that is a slot of the list itself. When the insert expands the buffer,
  the slot lies in the buffer that has been released. When it does not, the slot is
  read after the shift, which has moved the element that stood at position \<open>j\<close> to
  position \<open>j + 1\<close> if \<open>j\<close> is at or after the place of insertion: a slot after that
  place then holds its left neighbour of before the call.\<close>

lemma insert_L_slot_released:
  assumes "valid l" "size_m l = capacity_m l" "size_m l \<noteq> MAX_CAPACITY"
    "- size_m l \<le> index" "index \<le> size_m l"
  shows "fst (insert_L l index (Slot j)) = Inl Dangling"
  using insert_L_steps[OF assms(1,3,4,5) refl refl] assms(2) by (auto simp: read_ref_def)

lemma insert_L_slot_in_place:
  assumes "valid l" "size_m l \<noteq> capacity_m l"
    "- size_m l \<le> index" "index \<le> size_m l" "0 \<le> j" "j < size_m l"
  shows "insert_L l index (Slot j) =
         insert_L l index (Outside (elems l !
           nat (if j \<le> (if index \<ge> 0 then index else index + size_m l) then j else j - 1)))"
proof -
  have nf: "size_m l \<noteq> MAX_CAPACITY"
    using assms(1,2) unfolding valid_def bounds_inv_def by auto
  from insert_L_steps[OF assms(1) nf assms(3,4) refl refl] assms(2,5,6) show ?thesis
    by (auto simp: read_ref_def)
qed

text \<open>\<^verbatim>\<open>l.insert(0, l[1])\<close> on the list \<open>[1, 2, 3]\<close> of capacity 4: the shift has
  overwritten \<^verbatim>\<open>data_[1]\<close> with the 1 of \<^verbatim>\<open>data_[0]\<close> before the element is read, and
  the list becomes \<open>[1, 1, 2, 3]\<close>.\<close>

lemma insert_own_slot_after_shift:
  "op_index \<lparr>size_m = 3, capacity_m = 4,
             data_m = [Some (1::int), Some 2, Some 3, None]\<rparr> 1 = Inr (Slot 1) \<and>
   insert_L \<lparr>size_m = 3, capacity_m = 4,
             data_m = [Some (1::int), Some 2, Some 3, None]\<rparr> 0 (Slot 1) =
     (Inr (), \<lparr>size_m = 4, capacity_m = 4, data_m = [Some 1, Some 1, Some 2, Some 3]\<rparr>)"
  by code_simp



lemma op_minus_eq_capacity: "capacity_m (snd (op_minus_eq l x)) = capacity_m l"
  using remove_L_capacity[of l]
  by (auto simp: op_minus_eq_def split: sum.splits prod.splits) (metis snd_conv)+

lemma reverse_capacity: "capacity_m (snd (reverse l)) = capacity_m l"
  by (simp add: reverse_def split: sum.splits)

lemma sort_L_capacity: "capacity_m (snd (sort_L l cmp)) = capacity_m l"
  by (simp add: sort_L_def split: sum.splits)



lemma il_elems_ok:
  "length post \<le> length junk \<Longrightarrow>
   il_elems (int (length pre)) (int (length (pre @ post))) (pre @ post) (map Some pre @ junk) =
     Inr (map Some (pre @ post) @ drop (length post) junk)"
proof (induction post arbitrary: pre junk)
  case Nil
  show ?case by (subst il_elems.simps) simp
next
  case (Cons y ys)
  then obtain j js where junk: "junk = j # js" by (cases junk) auto
  have w: "wr (map Some pre @ junk) (int (length pre)) ((pre @ y # ys) ! nat (int (length pre))) =
           Inr (map Some (pre @ [y]) @ js)"
    by (simp add: wr_def junk list_update_append)
  have "il_elems (int (length pre)) (int (length (pre @ y # ys))) (pre @ y # ys)
          (map Some pre @ junk) =
        il_elems (int (length pre) + 1) (int (length (pre @ y # ys))) (pre @ y # ys)
          (map Some (pre @ [y]) @ js)"
    apply (subst il_elems.simps)
    apply (simp only: w sum.case)
    apply simp
    done
  also have "\<dots> = il_elems (int (length (pre @ [y]))) (int (length ((pre @ [y]) @ ys)))
          ((pre @ [y]) @ ys) (map Some (pre @ [y]) @ js)"
    by (simp add: add.commute)
  also have "\<dots> = Inr (map Some ((pre @ [y]) @ ys) @ drop (length ys) js)"
    using Cons.prems junk by (intro Cons.IH) simp
  finally show ?case by (simp add: junk)
qed






subsection \<open>Validity after the remaining operations\<close>

lemma List_il_result:
  assumes "int (length il) \<le> INT_MAX"
  shows "List_il il = Inr \<lparr>size_m = int (length il),
           capacity_m = (if int (length il) \<ge> INIT_CAPACITY then int (length il) else INIT_CAPACITY),
           data_m = map Some il @ drop (length il)
             (new_array (if int (length il) \<ge> INIT_CAPACITY then int (length il) else INIT_CAPACITY))\<rparr>"
proof -
  define cap where "cap = (if int (length il) \<ge> INIT_CAPACITY then int (length il) else INIT_CAPACITY)"
  have t: "to_int32 (int (length il)) = int (length il)"
    using assms by (simp add: to_int32_def INT_MAX_def)
  have "int (length il) \<le> cap" by (auto simp: cap_def)
  then have "length il \<le> length (new_array cap :: 'a option list)" by (simp add: new_array_def)
  from il_elems_ok[OF this, of "[]"] have
    e: "il_elems 0 (int (length il)) il (new_array cap) =
        Inr (map Some il @ drop (length il) (new_array cap))" by simp
  show ?thesis
    unfolding List_il_def Let_def t cap_def[symmetric] using e by simp
qed








subsection \<open>One expansion for an insert\<close>

text \<open>An insert of an object outside the list. On a valid list with
  \<open>length = capacity < MAX_CAPACITY\<close> and an admissible index it expands the capacity
  exactly once: \<^verbatim>\<open>expand_capacity\<close> yields a valid list \<open>l1\<close> with the same elements and
  capacity \<open>min (capacity * 2) MAX_CAPACITY\<close>, which is no longer full, and the insert is
  the insert into \<open>l1\<close>, which does not expand again. Afterwards the elements are the
  old ones with the new one at its position. An insert into a list that is not full
  keeps the capacity, an insert that throws leaves the list as it was, and
  \<^verbatim>\<open>remove\<close>, removal by value, \<^verbatim>\<open>reverse\<close>, \<^verbatim>\<open>sort\<close> and \<^verbatim>\<open>uniquify\<close> keep the
  capacity.\<close>

lemma insert_expands_once:
  assumes "valid l"
  shows "(size_m l = capacity_m l \<and> capacity_m l < MAX_CAPACITY \<and>
          - size_m l \<le> index \<and> index \<le> size_m l \<longrightarrow>
            (\<exists>l1 l'. expand_capacity l = (Inr (), l1) \<and> valid l1 \<and> elems l1 = elems l \<and>
               capacity_m l1 = min (capacity_m l * 2) MAX_CAPACITY \<and>
               size_m l1 < capacity_m l1 \<and>
               insert_L l index (Outside x) = insert_L l1 index (Outside x) \<and>
               insert_L l index (Outside x) = (Inr (), l') \<and> valid l' \<and>
               capacity_m l' = min (capacity_m l * 2) MAX_CAPACITY \<and>
               size_m l' = size_m l + 1 \<and>
               elems l' = take (resolve index (size_m l)) (elems l) @ x #
                          drop (resolve index (size_m l)) (elems l))) \<and>
         (size_m l \<noteq> capacity_m l \<longrightarrow>
            capacity_m (snd (insert_L l index (Outside x))) = capacity_m l) \<and>
         (size_m l = MAX_CAPACITY \<or> index < - size_m l \<or> size_m l < index \<longrightarrow>
            snd (insert_L l index (Outside x)) = l) \<and>
         capacity_m (snd (remove_L l index)) = capacity_m l \<and>
         capacity_m (snd (op_minus_eq l x)) = capacity_m l \<and>
         capacity_m (snd (reverse l)) = capacity_m l \<and>
         capacity_m (snd (sort_L l comparator)) = capacity_m l \<and>
         (\<exists>l'. uniquify l = Some (Inr (), l') \<and> capacity_m l' = capacity_m l) \<and>
         MAX_CAPACITY = INT_MAX - 1"
proof -
  have full: "\<exists>l1 l'. expand_capacity l = (Inr (), l1) \<and> valid l1 \<and> elems l1 = elems l \<and>
               capacity_m l1 = min (capacity_m l * 2) MAX_CAPACITY \<and>
               size_m l1 < capacity_m l1 \<and>
               insert_L l index (Outside x) = insert_L l1 index (Outside x) \<and>
               insert_L l index (Outside x) = (Inr (), l') \<and> valid l' \<and>
               capacity_m l' = min (capacity_m l * 2) MAX_CAPACITY \<and>
               size_m l' = size_m l + 1 \<and>
               elems l' = take (resolve index (size_m l)) (elems l) @ x #
                          drop (resolve index (size_m l)) (elems l)"
    if f: "size_m l = capacity_m l" "capacity_m l < MAX_CAPACITY"
      and ix: "- size_m l \<le> index" "index \<le> size_m l"
  proof -
    have nf: "size_m l \<noteq> MAX_CAPACITY" using f by simp
    from expand_capacity_valid[OF assms nf] f(1) obtain l1 where l1:
      "expand_capacity l = (Inr (), l1)" "valid l1" "size_m l1 = size_m l"
      "capacity_m l1 = min (capacity_m l * 2) MAX_CAPACITY" "elems l1 = elems l"
      "size_m l1 < capacity_m l1" by auto
    from insert_L_ok[OF assms nf ix, of x] f(1) obtain l' where l':
      "insert_L l index (Outside x) = (Inr (), l')" "valid l'" "size_m l' = size_m l + 1"
      "capacity_m l' = min (capacity_m l * 2) MAX_CAPACITY"
      "elems l' = take (resolve index (size_m l)) (elems l) @ x #
                  drop (resolve index (size_m l)) (elems l)" by auto
    have ro: "read_ref (Outside x) b d = Inr x" for b and d :: "'a option list"
      by (simp add: read_ref_def)
    have "insert_L l index (Outside x) = insert_L l1 index (Outside x)"
      unfolding insert_L_def ro
      using f(1) l1(1,3,6) nf ix by (simp add: check_full_def check_bounds_def)
    then show ?thesis using l1 l' by blast
  qed
  have rej: "snd (insert_L l index (Outside x)) = l"
    if "size_m l = MAX_CAPACITY \<or> index < - size_m l \<or> size_m l < index"
    using that insert_L_rejects[of l index "Outside x"] by (cases "size_m l = MAX_CAPACITY") auto
  have u: "\<exists>l'. uniquify l = Some (Inr (), l') \<and> capacity_m l' = capacity_m l"
    using uniquify_ok[OF assms] by blast
  show ?thesis
    using full rej u insert_L_same_capacity[of l index "Outside x"] remove_L_capacity[of l index]
      op_minus_eq_capacity[of l x] reverse_capacity[of l] sort_L_capacity[of l comparator]
      MAX_CAPACITY_def
    by blast
qed

section \<open>The claims\<close>

subsection \<open>Self-concatenation\<close>

text \<open>Claim C1, as amended. For every valid list \<open>c\<close> of length \<open>n\<close> with
  \<open>2 * n \<le> MAX_CAPACITY\<close>, \<^verbatim>\<open>c += c\<close> returns and leaves \<open>c\<close> valid with length \<open>2 * n\<close>,
  its first \<open>n\<close> elements and its last \<open>n\<close> elements both equal to the contents before
  the call, whatever growth of the buffer happens on the way; no other object of the
  store changes. For every valid list with \<open>2 * n > MAX_CAPACITY\<close> the call fails with
  CapacityExceeded (thrown by the capacity check of \<^verbatim>\<open>insert\<close>); the list is still valid
  and no other object of the store has changed.\<close>

theorem self_concatenation_doubles:
  assumes "valid (s c)"
  shows "(2 * size_m (s c) \<le> MAX_CAPACITY \<longrightarrow>
           (\<exists>s'. op_plus_eq_list c c s = (Inr (), s') \<and> valid (s' c) \<and>
              size_m (s' c) = 2 * size_m (s c) \<and>
              elems (s' c) = elems (s c) @ elems (s c) \<and>
              take (nat (size_m (s c))) (elems (s' c)) = elems (s c) \<and>
              drop (nat (size_m (s c))) (elems (s' c)) = elems (s c) \<and>
              (\<forall>p. p \<noteq> c \<longrightarrow> s' p = s p))) \<and>
         (2 * size_m (s c) > MAX_CAPACITY \<longrightarrow>
           (\<exists>s'. op_plus_eq_list c c s = (Inl CapacityExceeded, s') \<and> valid (s' c) \<and>
              (\<forall>p. p \<noteq> c \<longrightarrow> s' p = s p)))"
proof (intro conjI impI)
  assume n: "2 * size_m (s c) \<le> MAX_CAPACITY"
  from self_concat_outcome[of s c, OF assms] n obtain l' where l':
    "op_plus_eq_list c c s = (Inr (), s(c := l'))" "valid l'"
    "size_m l' = 2 * size_m (s c)" "elems l' = elems (s c) @ elems (s c)" by blast
  have "length (elems (s c)) = nat (size_m (s c))" by (rule length_elems[OF assms])
  then show "\<exists>s'. op_plus_eq_list c c s = (Inr (), s') \<and> valid (s' c) \<and>
              size_m (s' c) = 2 * size_m (s c) \<and>
              elems (s' c) = elems (s c) @ elems (s c) \<and>
              take (nat (size_m (s c))) (elems (s' c)) = elems (s c) \<and>
              drop (nat (size_m (s c))) (elems (s' c)) = elems (s c) \<and>
              (\<forall>p. p \<noteq> c \<longrightarrow> s' p = s p)"
    using l' by (intro exI[of _ "s(c := l')"]) simp
next
  assume n: "2 * size_m (s c) > MAX_CAPACITY"
  from self_concat_outcome[of s c, OF assms] n obtain l' where l':
    "op_plus_eq_list c c s = (Inl CapacityExceeded, s(c := l'))" "valid l'" by blast
  then show "\<exists>s'. op_plus_eq_list c c s = (Inl CapacityExceeded, s') \<and> valid (s' c) \<and>
              (\<forall>p. p \<noteq> c \<longrightarrow> s' p = s p)"
    by (intro exI[of _ "s(c := l')"]) simp
qed

theorem self_concatenation_doubles_witness:
  "valid (single_store \<lparr>size_m = 3, capacity_m = 4,
            data_m = [Some (1::int), Some 2, Some 3, None]\<rparr> 0) \<and>
   (\<exists>s'. op_plus_eq_list 0 0 (single_store \<lparr>size_m = 3, capacity_m = 4,
            data_m = [Some (1::int), Some 2, Some 3, None]\<rparr>) = (Inr (), s') \<and>
      size_m (s' 0) = 6 \<and> elems (s' 0) = [1, 2, 3, 1, 2, 3]) \<and>
   valid (single_store \<lparr>size_m = 1073741823, capacity_m = 2147483646,
            data_m = replicate 2147483646 (Some (7::int))\<rparr> 0) \<and>
   (\<exists>s'. op_plus_eq_list 0 0 (single_store \<lparr>size_m = 1073741823, capacity_m = 2147483646,
            data_m = replicate 2147483646 (Some (7::int))\<rparr>) = (Inr (), s') \<and>
      size_m (s' 0) = 2147483646) \<and>
   valid (single_store \<lparr>size_m = 1073741824, capacity_m = 2147483646,
            data_m = replicate 2147483646 (Some (7::int))\<rparr> 0) \<and>
   (\<exists>s'. op_plus_eq_list 0 0 (single_store \<lparr>size_m = 1073741824, capacity_m = 2147483646,
            data_m = replicate 2147483646 (Some (7::int))\<rparr>) = (Inl CapacityExceeded, s') \<and>
      valid (s' 0))"
proof -
  let ?s = "single_store \<lparr>size_m = 3, capacity_m = 4,
            data_m = [Some (1::int), Some 2, Some 3, None]\<rparr>"
  let ?t = "single_store \<lparr>size_m = 1073741823, capacity_m = 2147483646,
            data_m = replicate 2147483646 (Some (7::int))\<rparr>"
  let ?u = "single_store \<lparr>size_m = 1073741824, capacity_m = 2147483646,
            data_m = replicate 2147483646 (Some (7::int))\<rparr>"
  have v: "valid (?s 0)" "valid (?t 0)" "valid (?u 0)"
    by (simp_all add: single_store_def valid_def bounds_inv_def buffer_ok_def
        MAX_CAPACITY_def INT_MAX_def)
  have n: "2 * size_m (?s 0) \<le> MAX_CAPACITY" "2 * size_m (?t 0) \<le> MAX_CAPACITY"
    "2 * size_m (?u 0) > MAX_CAPACITY"
    by (simp_all add: single_store_def MAX_CAPACITY_def INT_MAX_def)
  from self_concatenation_doubles[of ?s 0, OF v(1)] n(1) obtain s' where
    "op_plus_eq_list 0 0 ?s = (Inr (), s')" "size_m (s' 0) = 2 * size_m (?s 0)"
    "elems (s' 0) = elems (?s 0) @ elems (?s 0)" by blast
  then have a: "\<exists>s'. op_plus_eq_list 0 0 ?s = (Inr (), s') \<and>
      size_m (s' 0) = 6 \<and> elems (s' 0) = [1, 2, 3, 1, 2, 3]"
    by (intro exI[of _ s']) (simp add: single_store_def elems_def)
  from self_concatenation_doubles[of ?t 0, OF v(2)] n(2) obtain t' where
    "op_plus_eq_list 0 0 ?t = (Inr (), t')" "size_m (t' 0) = 2 * size_m (?t 0)" by blast
  then have b: "\<exists>s'. op_plus_eq_list 0 0 ?t = (Inr (), s') \<and> size_m (s' 0) = 2147483646"
    by (intro exI[of _ t']) (simp add: single_store_def)
  from self_concatenation_doubles[of ?u 0, OF v(3)] n(3) have c:
    "\<exists>s'. op_plus_eq_list 0 0 ?u = (Inl CapacityExceeded, s') \<and> valid (s' 0)" by blast
  show ?thesis using v a b c by blast
qed

text \<open>The claim as it was stated, for every list, fails on a list of \<open>2^30\<close> elements:
  the doubled length would pass \<open>MAX_CAPACITY = 2^31 - 2\<close>, and the call throws.\<close>

theorem self_concatenation_counterexample:
  "valid (single_store \<lparr>size_m = 1073741824, capacity_m = 1073741824,
            data_m = replicate 1073741824 (Some (0::int))\<rparr> 0) \<and>
   fst (op_plus_eq_list 0 0 (single_store \<lparr>size_m = 1073741824, capacity_m = 1073741824,
            data_m = replicate 1073741824 (Some (0::int))\<rparr>)) = Inl CapacityExceeded"
proof -
  let ?s = "single_store \<lparr>size_m = 1073741824, capacity_m = 1073741824,
            data_m = replicate 1073741824 (Some (0::int))\<rparr>"
  have v: "valid (?s 0)"
    by (simp add: single_store_def valid_def bounds_inv_def buffer_ok_def
        MAX_CAPACITY_def INT_MAX_def)
  have n: "2 * size_m (?s 0) > MAX_CAPACITY"
    by (simp add: single_store_def MAX_CAPACITY_def INT_MAX_def)
  from self_concat_outcome[of ?s 0, OF v] n obtain l' where
    "op_plus_eq_list 0 0 ?s = (Inl CapacityExceeded, ?s(0 := l'))" by blast
  then show ?thesis using v by simp
qed

subsection \<open>Capacity expansion\<close>

text \<open>Claim C2 says that on a list with \<open>length = capacity < MAX_CAPACITY\<close> an insert
  expands the capacity once and that afterwards all prior elements and the inserted
  one are present in order. The code does not achieve this when the element inserted
  is an element of the list itself. \<^verbatim>\<open>List<int> l = {1, 2, 3, 4}\<close> is full, with
  \<^verbatim>\<open>size_ = capacity_ = 4\<close>, and \<^verbatim>\<open>l[0]\<close> is a reference to \<^verbatim>\<open>data_[0]\<close>. In
  \<^verbatim>\<open>l.insert(0, l[0])\<close>, and likewise in \<^verbatim>\<open>l += l[0]\<close>, \<^verbatim>\<open>expand_capacity\<close> copies the
  elements into a buffer of 8 slots and releases the old buffer, the loop shifts the
  elements, and \<^verbatim>\<open>data_[index] = element\<close> then reads the element through the reference
  into the released buffer. The same calls with an object outside the list that holds
  the value 1 return with the elements \<open>[1, 1, 2, 3, 4]\<close> and \<open>[1, 2, 3, 4, 1]\<close>.\<close>

theorem insert_own_element_at_full_capacity:
  "List_il [1, 2, 3, 4 :: int] =
     Inr \<lparr>size_m = 4, capacity_m = 4, data_m = [Some 1, Some 2, Some 3, Some 4]\<rparr> \<and>
   op_index \<lparr>size_m = 4, capacity_m = 4,
             data_m = [Some (1::int), Some 2, Some 3, Some 4]\<rparr> 0 = Inr (Slot 0) \<and>
   insert_L \<lparr>size_m = 4, capacity_m = 4,
             data_m = [Some (1::int), Some 2, Some 3, Some 4]\<rparr> 0 (Slot 0) =
     (Inl Dangling, \<lparr>size_m = 4, capacity_m = 8,
        data_m = [Some 1, Some 1, Some 2, Some 3, Some 4, None, None, None]\<rparr>) \<and>
   op_plus_eq_elem \<lparr>size_m = 4, capacity_m = 4,
             data_m = [Some (1::int), Some 2, Some 3, Some 4]\<rparr> (Slot 0) =
     (Inl Dangling, \<lparr>size_m = 4, capacity_m = 8,
        data_m = [Some 1, Some 2, Some 3, Some 4, None, None, None, None]\<rparr>) \<and>
   insert_L \<lparr>size_m = 4, capacity_m = 4,
             data_m = [Some (1::int), Some 2, Some 3, Some 4]\<rparr> 0 (Outside 1) =
     (Inr (), \<lparr>size_m = 5, capacity_m = 8,
        data_m = [Some 1, Some 1, Some 2, Some 3, Some 4, None, None, None]\<rparr>) \<and>
   op_plus_eq_elem \<lparr>size_m = 4, capacity_m = 4,
             data_m = [Some (1::int), Some 2, Some 3, Some 4]\<rparr> (Outside 1) =
     (Inr (), \<lparr>size_m = 5, capacity_m = 8,
        data_m = [Some 1, Some 2, Some 3, Some 4, Some 1, None, None, None]\<rparr>)"
  by code_simp

subsection \<open>Uniquify\<close>

text \<open>Claim C3, as amended. For every valid list \<^verbatim>\<open>uniquify()\<close> returns, and afterwards
  every value of the list appears exactly once. The values stand in the order of their
  last occurrences, not of their first: the loop removes by value, and a removal by
  value takes the first occurrence out, so of several equal elements the last one stays
  (\<open>remdups\<close> keeps last occurrences; it is the mirror image of the first-seen order).
  The list \<open>[5, 3, 3, 1, 4]\<close> becomes \<open>[5, 3, 1, 4]\<close>, where the two orders agree.\<close>

theorem uniquify_keeps_last_occurrences:
  assumes "valid l"
  shows "\<exists>l'. uniquify l = Some (Inr (), l') \<and> valid l' \<and>
           distinct (elems l') \<and> set (elems l') = set (elems l) \<and>
           elems l' = remdups (elems l) \<and>
           elems l' = rev (first_seen_order (rev (elems l)))"
proof -
  from uniquify_ok[OF assms] obtain l' where
    "uniquify l = Some (Inr (), l')" "valid l'" "elems l' = remdups (elems l)" by blast
  then show ?thesis by (auto simp: first_seen_order_def)
qed

theorem uniquify_keeps_last_occurrences_witness:
  "valid \<lparr>size_m = 5, capacity_m = 5,
          data_m = [Some (5::int), Some 3, Some 3, Some 1, Some 4]\<rparr> \<and>
   (\<exists>l'. uniquify \<lparr>size_m = 5, capacity_m = 5,
          data_m = [Some (5::int), Some 3, Some 3, Some 1, Some 4]\<rparr> = Some (Inr (), l') \<and>
         elems l' = [5, 3, 1, 4])"
proof -
  have v: "valid \<lparr>size_m = 5, capacity_m = 5,
          data_m = [Some (5::int), Some 3, Some 3, Some 1, Some 4]\<rparr>"
    by (simp add: valid_def bounds_inv_def buffer_ok_def MAX_CAPACITY_def INT_MAX_def)
  show ?thesis
    using v uniquify_keeps_last_occurrences[OF v] by (auto simp: elems_def)
qed

text \<open>The claim as it was stated fails on \<open>[1, 2, 1]\<close>: the first-seen order is
  \<open>[1, 2]\<close>, and \<^verbatim>\<open>uniquify()\<close> leaves \<open>[2, 1]\<close>.\<close>

theorem uniquify_first_seen_counterexample:
  "uniquify \<lparr>size_m = 3, capacity_m = 4, data_m = [Some (1::int), Some 2, Some 1, None]\<rparr> =
     Some (Inr (), \<lparr>size_m = 2, capacity_m = 4, data_m = [Some 2, Some 1, Some 1, None]\<rparr>) \<and>
   elems \<lparr>size_m = 2, capacity_m = 4, data_m = [Some (2::int), Some 1, Some 1, None]\<rparr> = [2, 1] \<and>
   first_seen_order [1, 2, 1::int] = [1, 2] \<and>
   [2, 1] \<noteq> first_seen_order [1, 2, 1::int]"
  by code_simp

subsection \<open>Clear\<close>

text \<open>Claim C4, as amended. \<^verbatim>\<open>clear()\<close> on a list that is not empty leaves length 0,
  the capacity reset to the initial default and a fresh buffer of that many slots (the
  old one is released), and the result is a valid list. On an empty list \<^verbatim>\<open>clear()\<close>
  does nothing at all, whatever the capacity is: its body stands under
  \<^verbatim>\<open>if (size_ != 0)\<close>. \<^verbatim>\<open>remove\<close> never changes the capacity, whether it returns or
  throws, and so neither does any sequence of removals.\<close>

theorem clear_resets_a_nonempty_list:
  "(size_m l \<noteq> 0 \<longrightarrow>
      clear l = l\<lparr>size_m := 0, capacity_m := INIT_CAPACITY, data_m := new_array INIT_CAPACITY\<rparr> \<and>
      size_m (clear l) = 0 \<and> capacity_m (clear l) = INIT_CAPACITY \<and> valid (clear l)) \<and>
   (size_m l = 0 \<longrightarrow> clear l = l) \<and>
   capacity_m (snd (remove_L l index)) = capacity_m l \<and>
   capacity_m (fold (\<lambda>i l. snd (remove_L l i)) indices l) = capacity_m l"
proof -
  have "capacity_m (fold (\<lambda>i l. snd (remove_L l i)) indices l) = capacity_m l"
    by (induction indices arbitrary: l) (simp_all add: remove_L_capacity)
  moreover have "size_m l \<noteq> 0 \<Longrightarrow> valid (clear l)"
    using valid_List_default
    by (simp add: clear_def valid_def bounds_inv_def buffer_ok_def List_default_def)
  ultimately show ?thesis by (simp add: clear_def remove_L_capacity)
qed

theorem clear_resets_a_nonempty_list_witness:
  "size_m \<lparr>size_m = 3, capacity_m = 8,
      data_m = [Some (1::int), Some 2, Some 3, Some 4, Some 5, None, None, None]\<rparr> \<noteq> 0 \<and>
   clear \<lparr>size_m = 3, capacity_m = 8,
      data_m = [Some (1::int), Some 2, Some 3, Some 4, Some 5, None, None, None]\<rparr> =
     \<lparr>size_m = 0, capacity_m = 4, data_m = [None, None, None, None]\<rparr> \<and>
   size_m (List_default :: int List) = 0 \<and> clear (List_default :: int List) = List_default \<and>
   capacity_m (snd (remove_L \<lparr>size_m = 3, capacity_m = 8,
      data_m = [Some (1::int), Some 2, Some 3, Some 4, Some 5, None, None, None]\<rparr> 0)) = 8"
  using clear_resets_a_nonempty_list[of "\<lparr>size_m = 3, capacity_m = 8,
      data_m = [Some (1::int), Some 2, Some 3, Some 4, Some 5, None, None, None]\<rparr>" 0 "[]"]
    clear_resets_a_nonempty_list[of "List_default :: int List" 0 "[]"]
  by (simp add: List_default_def INIT_CAPACITY_def new_array_def eval_nat_numeral)

text \<open>The claim as it was stated fails on an empty list whose capacity has grown. Five
  appends to a new list and five removals leave such a list; \<^verbatim>\<open>clear()\<close> keeps its
  capacity of 8.\<close>

lemma grown_then_emptied:
  "fold (\<lambda>i l. snd (remove_L l 0)) [1, 2, 3, 4, 5 :: int]
     (fold (\<lambda>x l. snd (op_plus_eq_elem l (Outside x))) [1, 2, 3, 4, 5 :: int] List_default) =
   \<lparr>size_m = 0, capacity_m = 8,
      data_m = [Some 5, Some 5, Some 5, Some 5, Some 5, None, None, None]\<rparr>"
  by code_simp

theorem clear_of_empty_list_counterexample:
  "valid \<lparr>size_m = 0, capacity_m = 8,
      data_m = [Some (5::int), Some 5, Some 5, Some 5, Some 5, None, None, None]\<rparr> \<and>
   capacity_m (clear \<lparr>size_m = 0, capacity_m = 8,
      data_m = [Some (5::int), Some 5, Some 5, Some 5, Some 5, None, None, None]\<rparr>) = 8 \<and>
   INIT_CAPACITY = 4"
  by code_simp

subsection \<open>Slice\<close>

text \<open>Claim C5, as amended. For every valid list that is not empty, \<^verbatim>\<open>slice(0, length, 1)\<close>
  returns a new valid list with the same elements, equal to the receiver under
  \<^verbatim>\<open>operator==\<close>; \<^verbatim>\<open>slice\<close> is a \<^verbatim>\<open>const\<close> member and the receiver is a value that the
  call cannot change. On the empty list the same call fails with IndexOutOfRange, because
  no start passes \<^verbatim>\<open>check_bounds(start, -size_, size_)\<close>. In general, with a step other
  than zero, \<^verbatim>\<open>slice\<close> fails with IndexOutOfRange exactly when start is outside
  \<open>[-length, length)\<close> or stop is outside \<open>[-length-1, length]\<close>: both upper bounds are
  exclusive in the code, one less than the intervals of the claim.\<close>

theorem slice_whole_and_accepted_bounds:
  assumes "valid l"
  shows "(0 < size_m l \<longrightarrow>
            (\<exists>l'. slice l 0 (size_m l) 1 = Inr l' \<and> valid l' \<and> elems l' = elems l \<and>
                  op_eq l' l = Inr True)) \<and>
         (size_m l = 0 \<longrightarrow> slice l 0 (size_m l) 1 = Inl IndexOutOfRange) \<and>
         (step \<noteq> 0 \<longrightarrow>
            (slice l start stop step = Inl IndexOutOfRange \<longleftrightarrow>
             \<not> (- size_m l \<le> start \<and> start < size_m l \<and>
                - size_m l - 1 \<le> stop \<and> stop \<le> size_m l)))"
proof -
  have b: "0 \<le> size_m l" "size_m l \<le> MAX_CAPACITY"
    using assms unfolding valid_def bounds_inv_def by auto
  have whole: "\<exists>l'. slice l 0 (size_m l) 1 = Inr l' \<and> valid l' \<and> elems l' = elems l \<and>
                  op_eq l' l = Inr True" if pos: "0 < size_m l"
  proof -
    have e0: "size_m (List_default :: 'a List) = 0" "elems (List_default :: 'a List) = []"
      by (simp_all add: List_default_def elems_def)
    have "size_m (List_default :: 'a List) + (size_m l - 0) \<le> MAX_CAPACITY"
      using b by (simp add: e0)
    from slice_loop_unit_step[OF assms valid_List_default order_refl b(1) order_refl this]
    obtain l' where l': "slice_loop 0 (size_m l) 1 (data_m l) List_default = Inr l'" "valid l'"
      "elems l' = elems List_default @ drop (nat 0) (take (nat (size_m l)) (elems l))" by blast
    have "slice l 0 (size_m l) 1 = Inr l'"
      using pos l'(1) by (simp add: slice_def check_bounds_def)
    moreover have el: "elems l' = elems l" using l'(3) length_elems[OF assms] by (simp add: e0)
    moreover have "op_eq l' l = Inr True" using op_eq_ok[OF l'(2) assms] el by simp
    ultimately show ?thesis using l'(2) by blast
  qed
  have empty: "slice l 0 (size_m l) 1 = Inl IndexOutOfRange" if "size_m l = 0"
    using that by (simp add: slice_def check_bounds_def)
  have bounds: "slice l start stop step = Inl IndexOutOfRange \<longleftrightarrow>
             \<not> (- size_m l \<le> start \<and> start < size_m l \<and>
                - size_m l - 1 \<le> stop \<and> stop \<le> size_m l)" if s: "step \<noteq> 0"
  proof (cases "- size_m l \<le> start \<and> start < size_m l \<and>
                - size_m l - 1 \<le> stop \<and> stop \<le> size_m l")
    case True
    then have "slice l start stop step =
        slice_loop (if start < 0 then start + size_m l else start)
          (if stop < 0 then stop + size_m l else stop) step (data_m l) List_default"
      using s by (simp add: slice_def check_bounds_def Let_def)
    moreover have "slice_loop a b step (data_m l) (List_default :: 'a List) \<noteq> Inl IndexOutOfRange"
      for a b by (rule slice_loop_not_range_error[OF valid_List_default])
    ultimately have "slice l start stop step \<noteq> Inl IndexOutOfRange" by simp
    then show ?thesis using True by simp
  next
    case False
    then have "slice l start stop step = Inl IndexOutOfRange"
      using s by (auto simp: slice_def check_bounds_def)
    then show ?thesis using False by simp
  qed
  show ?thesis using whole empty bounds by blast
qed

theorem slice_whole_and_accepted_bounds_witness:
  "valid \<lparr>size_m = 3, capacity_m = 4, data_m = [Some (1::int), Some 2, Some 3, None]\<rparr> \<and>
   valid (List_default :: int List) \<and>
   (\<exists>l'. slice \<lparr>size_m = 3, capacity_m = 4,
             data_m = [Some (1::int), Some 2, Some 3, None]\<rparr> 0 3 1 = Inr l' \<and>
         elems l' = [1, 2, 3]) \<and>
   slice (List_default :: int List) 0 0 1 = Inl IndexOutOfRange \<and>
   slice \<lparr>size_m = 3, capacity_m = 4,
      data_m = [Some (1::int), Some 2, Some 3, None]\<rparr> (- 3) (- 4) (- 1) \<noteq> Inl IndexOutOfRange \<and>
   slice \<lparr>size_m = 3, capacity_m = 4,
      data_m = [Some (1::int), Some 2, Some 3, None]\<rparr> 3 3 1 = Inl IndexOutOfRange"
proof -
  let ?l = "\<lparr>size_m = 3, capacity_m = 4, data_m = [Some (1::int), Some 2, Some 3, None]\<rparr>"
  have v: "valid ?l"
    by (simp add: valid_def bounds_inv_def buffer_ok_def MAX_CAPACITY_def INT_MAX_def)
  have e: "elems ?l = [1, 2, 3]" by (simp add: elems_def)
  have z: "size_m (List_default :: int List) = 0" by (simp add: List_default_def)
  have "\<exists>l'. slice ?l 0 3 1 = Inr l' \<and> elems l' = [1, 2, 3]"
    using slice_whole_and_accepted_bounds[OF v, of 1 0 0] e by auto
  moreover have "slice (List_default :: int List) 0 0 1 = Inl IndexOutOfRange"
    using slice_whole_and_accepted_bounds[of "List_default :: int List" 1 0 0, OF valid_List_default]
    by (simp add: z)
  moreover have "slice ?l (- 3) (- 4) (- 1) \<noteq> Inl IndexOutOfRange"
    using slice_whole_and_accepted_bounds[OF v, of "- 1" "- 3" "- 4"] by simp
  moreover have "slice ?l 3 3 1 = Inl IndexOutOfRange"
    using slice_whole_and_accepted_bounds[OF v, of 1 3 3] by simp
  ultimately show ?thesis using v valid_List_default by blast
qed

text \<open>The claim as it was stated fails in three places: on the empty list
  \<^verbatim>\<open>slice(0, length, 1)\<close> throws, a start equal to the length is rejected, and so is a
  stop equal to the length plus one.\<close>

theorem slice_counterexample:
  "slice (List_default :: int List) 0 0 1 = Inl IndexOutOfRange \<and>
   slice \<lparr>size_m = 3, capacity_m = 4,
      data_m = [Some (1::int), Some 2, Some 3, None]\<rparr> 3 3 1 = Inl IndexOutOfRange \<and>
   slice \<lparr>size_m = 3, capacity_m = 4,
      data_m = [Some (1::int), Some 2, Some 3, None]\<rparr> 0 4 1 = Inl IndexOutOfRange"
  by code_simp

subsection \<open>Find\<close>

text \<open>Claim C6 says that \<^verbatim>\<open>find(element, start, stop)\<close> clamps both bounds, never reads
  outside the live slots and never fails. The source clamps \<open>stop\<close> only. With a
  negative \<open>start\<close> the loop begins below the buffer: on the list \<open>[1, 2, 3]\<close>,
  \<^verbatim>\<open>find(7, -1, 3)\<close> reads \<^verbatim>\<open>data_[-1]\<close>, and so does \<^verbatim>\<open>contains\<close>. (From a start that
  is not negative the search does stay inside the list: \<open>find_L_nonneg_start\<close>.)\<close>

theorem find_negative_start_reads_below_buffer:
  "find_L \<lparr>size_m = 3, capacity_m = 4, data_m = [Some (1::int), Some 2, Some 3, None]\<rparr>
      7 (- 1) 3 = Inl OutOfBounds \<and>
   contains \<lparr>size_m = 3, capacity_m = 4, data_m = [Some (1::int), Some 2, Some 3, None]\<rparr>
      7 (- 1) 3 = Inl OutOfBounds \<and>
   find_L (List_default :: int List) 99 (- 1) (MAX_CAPACITY + 1) = Inl OutOfBounds"
  by code_simp

subsection \<open>Repetition\<close>

text \<open>Claim C7, as amended. On a valid list \<^verbatim>\<open>operator*=\<close> fails with InvalidArgument if
  and only if \<open>times < 0\<close>, and then the list is unchanged. For \<open>times \<ge> 0\<close> with
  \<open>times * length \<le> MAX_CAPACITY\<close> it returns, the new length is \<open>times * length\<close> and
  the contents are \<open>times\<close> consecutive copies of the old sequence, so that
  \<^verbatim>\<open>repeat(0)\<close> gives an empty list. For \<open>times \<ge> 0\<close> with
  \<open>times * length > MAX_CAPACITY\<close> it fails with CapacityExceeded, the list unchanged.\<close>

theorem repetition_outcomes:
  assumes "valid l"
  shows "(fst (op_times_eq l ntimes) = Inl InvalidArgument \<longleftrightarrow> ntimes < 0) \<and>
         (ntimes < 0 \<longrightarrow> op_times_eq l ntimes = (Inl InvalidArgument, l)) \<and>
         (0 \<le> ntimes \<and> ntimes * size_m l \<le> MAX_CAPACITY \<longrightarrow>
            (\<exists>l'. op_times_eq l ntimes = (Inr (), l') \<and> valid l' \<and>
               size_m l' = ntimes * size_m l \<and>
               elems l' = concat (replicate (nat ntimes) (elems l)))) \<and>
         (0 \<le> ntimes \<and> ntimes * size_m l > MAX_CAPACITY \<longrightarrow>
            op_times_eq l ntimes = (Inl CapacityExceeded, l)) \<and>
         (ntimes = 0 \<longrightarrow> (\<exists>l'. op_times_eq l ntimes = (Inr (), l') \<and> elems l' = []))"
proof -
  note o = op_times_eq_outcome[OF assms, of ntimes]
  have "fst (op_times_eq l ntimes) = Inl InvalidArgument \<longleftrightarrow> ntimes < 0"
  proof (cases "ntimes < 0")
    case True
    then show ?thesis using o by simp
  next
    case False
    then show ?thesis using o by (cases "ntimes * size_m l \<le> MAX_CAPACITY") auto
  qed
  moreover have "ntimes = 0 \<longrightarrow> (\<exists>l'. op_times_eq l ntimes = (Inr (), l') \<and> elems l' = [])"
    using o by (auto simp: MAX_CAPACITY_def INT_MAX_def)
  ultimately show ?thesis using o by blast
qed

theorem repetition_outcomes_witness:
  "valid \<lparr>size_m = 2, capacity_m = 4, data_m = [Some (7::int), Some 8, None, None]\<rparr> \<and>
   op_times_eq \<lparr>size_m = 2, capacity_m = 4, data_m = [Some (7::int), Some 8, None, None]\<rparr> (- 1) =
     (Inl InvalidArgument,
      \<lparr>size_m = 2, capacity_m = 4, data_m = [Some (7::int), Some 8, None, None]\<rparr>) \<and>
   (\<exists>l'. op_times_eq \<lparr>size_m = 2, capacity_m = 4,
             data_m = [Some (7::int), Some 8, None, None]\<rparr> 3 = (Inr (), l') \<and>
         size_m l' = 6 \<and> elems l' = [7, 8, 7, 8, 7, 8]) \<and>
   (\<exists>l'. op_times_eq \<lparr>size_m = 2, capacity_m = 4,
             data_m = [Some (7::int), Some 8, None, None]\<rparr> 0 = (Inr (), l') \<and> elems l' = [])"
proof -
  let ?l = "\<lparr>size_m = 2, capacity_m = 4, data_m = [Some (7::int), Some 8, None, None]\<rparr>"
  have v: "valid ?l"
    by (simp add: valid_def bounds_inv_def buffer_ok_def MAX_CAPACITY_def INT_MAX_def)
  have "op_times_eq ?l (- 1) = (Inl InvalidArgument, ?l)"
    using repetition_outcomes[OF v, of "- 1"] by simp
  moreover have "\<exists>l'. op_times_eq ?l 3 = (Inr (), l') \<and> size_m l' = 6 \<and>
      elems l' = [7, 8, 7, 8, 7, 8]"
  proof -
    have e: "elems ?l = [7, 8]" by (simp add: elems_def)
    show ?thesis
      using repetition_outcomes[OF v, of 3]
      by (auto simp: MAX_CAPACITY_def INT_MAX_def e eval_nat_numeral)
  qed
  moreover have "\<exists>l'. op_times_eq ?l 0 = (Inr (), l') \<and> elems l' = []"
    using repetition_outcomes[OF v, of 0] by simp
  ultimately show ?thesis using v by blast
qed

text \<open>The claim as it was stated, success for every \<open>times \<ge> 0\<close>, fails for a list of two
  elements and \<open>times = 2^30\<close>: the product passes \<open>MAX_CAPACITY\<close>.\<close>

theorem repetition_counterexample:
  "valid \<lparr>size_m = 2, capacity_m = 4, data_m = [Some (7::int), Some 8, None, None]\<rparr> \<and>
   op_times_eq \<lparr>size_m = 2, capacity_m = 4, data_m = [Some (7::int), Some 8, None, None]\<rparr>
     1073741824 =
     (Inl CapacityExceeded,
      \<lparr>size_m = 2, capacity_m = 4, data_m = [Some (7::int), Some 8, None, None]\<rparr>)"
proof -
  let ?l = "\<lparr>size_m = 2, capacity_m = 4, data_m = [Some (7::int), Some 8, None, None]\<rparr>"
  have v: "valid ?l"
    by (simp add: valid_def bounds_inv_def buffer_ok_def MAX_CAPACITY_def INT_MAX_def)
  show ?thesis
    using v op_times_eq_outcome[OF v, of 1073741824] by (simp add: MAX_CAPACITY_def INT_MAX_def)
qed

subsection \<open>Sort\<close>

text \<open>Claim C8. For every valid list and every comparator that is a strict weak order,
  \<^verbatim>\<open>sort(comparator)\<close> returns, keeps the elements (as a multiset), leaves them sorted
  under the comparator (no element is followed by one that must precede it), and is
  stable: the elements that compare equal to any given value, neither preceding the
  other, stand in the same order as before. With the default comparator the result is
  the ascending sort of the elements.\<close>

theorem sort_sorted_and_stable:
  fixes l :: "'a List" and l2 :: "'b::linorder List"
  assumes "valid l" "strict_weak_order comparator"
  shows "(\<exists>l'. sort_L l comparator = (Inr (), l') \<and> valid l' \<and>
            sorted_wrt (\<lambda>a b. \<not> comparator b a) (elems l') \<and>
            mset (elems l') = mset (elems l) \<and>
            (\<forall>a. filter (\<lambda>z. \<not> comparator a z \<and> \<not> comparator z a) (elems l') =
                 filter (\<lambda>z. \<not> comparator a z \<and> \<not> comparator z a) (elems l))) \<and>
         (valid l2 \<longrightarrow>
            (\<exists>l'. sort_L l2 default_comparator = (Inr (), l') \<and> valid l' \<and>
                  sorted (elems l') \<and> elems l' = sort (elems l2)))"
proof -
  have a: "\<exists>l'. sort_L l comparator = (Inr (), l') \<and> valid l' \<and>
            sorted_wrt (\<lambda>a b. \<not> comparator b a) (elems l') \<and>
            mset (elems l') = mset (elems l) \<and>
            (\<forall>a. filter (\<lambda>z. \<not> comparator a z \<and> \<not> comparator z a) (elems l') =
                 filter (\<lambda>z. \<not> comparator a z \<and> \<not> comparator z a) (elems l))"
    using sort_L_ok[OF assms] by blast
  have b: "\<exists>l'. sort_L l2 default_comparator = (Inr (), l') \<and> valid l' \<and>
                  sorted (elems l') \<and> elems l' = sort (elems l2)" if v2: "valid l2"
  proof -
    from sort_L_ok[OF v2 swo_default_comparator] obtain l' where l':
      "sort_L l2 default_comparator = (Inr (), l')" "valid l'"
      "sorted_wrt (\<lambda>a b. \<not> default_comparator b a) (elems l')"
      "mset (elems l') = mset (elems l2)" by blast
    have "(\<lambda>a b :: 'b. \<not> default_comparator b a) = (\<le>)"
      by (intro ext) (auto simp: default_comparator_def)
    then have s: "sorted (elems l')" using l'(3) by simp
    have "sort (elems l2) = elems l'" using l'(4) s by (rule properties_for_sort)
    then show ?thesis using l'(1,2) s by auto
  qed
  show ?thesis using a b by blast
qed

theorem sort_sorted_and_stable_witness:
  "valid \<lparr>size_m = 4, capacity_m = 4,
      data_m = [Some (2::int, 1::int), Some (1, 1), Some (2, 2), Some (1, 2)]\<rparr> \<and>
   strict_weak_order (\<lambda>a b :: int \<times> int. fst a < fst b) \<and>
   valid \<lparr>size_m = 5, capacity_m = 5,
      data_m = [Some (5::int), Some 3, Some 3, Some 1, Some 4]\<rparr> \<and>
   (\<exists>l'. sort_L \<lparr>size_m = 4, capacity_m = 4,
      data_m = [Some (2::int, 1::int), Some (1, 1), Some (2, 2), Some (1, 2)]\<rparr>
        (\<lambda>a b. fst a < fst b) = (Inr (), l') \<and>
      filter (\<lambda>z. fst z = 1) (elems l') = [(1, 1), (1, 2)] \<and>
      filter (\<lambda>z. fst z = 2) (elems l') = [(2, 1), (2, 2)]) \<and>
   (\<exists>l'. sort_L \<lparr>size_m = 5, capacity_m = 5,
      data_m = [Some (5::int), Some 3, Some 3, Some 1, Some 4]\<rparr> default_comparator = (Inr (), l') \<and>
      elems l' = [1, 3, 3, 4, 5])"
proof -
  let ?l = "\<lparr>size_m = 4, capacity_m = 4,
      data_m = [Some (2::int, 1::int), Some (1, 1), Some (2, 2), Some (1, 2)]\<rparr>"
  let ?l2 = "\<lparr>size_m = 5, capacity_m = 5,
      data_m = [Some (5::int), Some 3, Some 3, Some 1, Some 4]\<rparr>"
  let ?c = "\<lambda>a b :: int \<times> int. fst a < fst b"
  have v: "valid ?l" "valid ?l2"
    by (simp_all add: valid_def bounds_inv_def buffer_ok_def MAX_CAPACITY_def INT_MAX_def)
  have c: "strict_weak_order ?c" unfolding strict_weak_order_def by auto
  note T = sort_sorted_and_stable[OF v(1) c, of ?l2]
  from T[THEN conjunct1] obtain l' where
    1: "sort_L ?l ?c = (Inr (), l')"
       "\<forall>a :: int \<times> int. filter (\<lambda>z. \<not> fst a < fst z \<and> \<not> fst z < fst a) (elems l') =
            filter (\<lambda>z. \<not> fst a < fst z \<and> \<not> fst z < fst a) (elems ?l)"
    by auto
  from T[THEN conjunct2, THEN mp, OF v(2)] obtain l2' where
    2: "sort_L ?l2 default_comparator = (Inr (), l2')" "elems l2' = sort (elems ?l2)"
    by auto
  have e1: "(\<lambda>z :: int \<times> int. \<not> 1 < fst z \<and> \<not> fst z < 1) = (\<lambda>z. fst z = 1)"
    "(\<lambda>z :: int \<times> int. \<not> 2 < fst z \<and> \<not> fst z < 2) = (\<lambda>z. fst z = 2)" by auto
  have "filter (\<lambda>z. fst z = 1) (elems l') = [(1, 1), (1, 2)]"
    using 1(2)[rule_format, of "(1::int, 0::int)"] by (simp add: e1 elems_def)
  moreover have "filter (\<lambda>z. fst z = 2) (elems l') = [(2, 1), (2, 2)]"
    using 1(2)[rule_format, of "(2::int, 0::int)"] by (simp add: e1 elems_def)
  moreover have "elems l2' = [1, 3, 3, 4, 5]" using 2(2) by (simp add: elems_def)
  ultimately show ?thesis using v c 1(1) 2(1) by blast
qed

subsection \<open>The bounds invariant\<close>



subsection \<open>Self-assignment\<close>

text \<open>Claim C10. Assigning a list to itself, by copy (\<^verbatim>\<open>x = x\<close>) or by move
  (\<^verbatim>\<open>x = std::move(x)\<close>), returns normally and leaves the whole store as it was: the
  object at \<open>x\<close> keeps its length, its capacity and its buffer, slot for slot, because
  the guard \<^verbatim>\<open>this != &that\<close> skips the release of the buffer and everything after it.
  A list that was valid is valid afterwards.\<close>

theorem self_assignment_unchanged:
  "op_assign_copy x x s = (Inr (), s) \<and> op_assign_move x x s = s \<and>
   elems (snd (op_assign_copy x x s) x) = elems (s x) \<and>
   size_m (snd (op_assign_copy x x s) x) = size_m (s x) \<and>
   capacity_m (snd (op_assign_copy x x s) x) = capacity_m (s x) \<and>
   data_m (snd (op_assign_copy x x s) x) = data_m (s x) \<and>
   valid (snd (op_assign_copy x x s) x) = valid (s x) \<and>
   elems (op_assign_move x x s x) = elems (s x) \<and>
   size_m (op_assign_move x x s x) = size_m (s x) \<and>
   capacity_m (op_assign_move x x s x) = capacity_m (s x) \<and>
   data_m (op_assign_move x x s x) = data_m (s x) \<and>
   valid (op_assign_move x x s x) = valid (s x)"
  by (simp add: op_assign_copy_def op_assign_move_def)

end
